theory Spec2Isabelle
  imports Complex_Main
begin

section \<open>Python values shared by the embedded functions\<close>

text \<open>
  Python \<^verbatim>\<open>str\<close> values are modelled as \<^typ>\<open>string\<close>, one \<^typ>\<open>char\<close> per code
  point (so the model covers code points 0..255); list-valued helpers are polymorphic
  where the source does not look at the characters. Every exception the embedded code
  can raise is a value of \<open>py_error\<close>, returned as \<open>Inl\<close>.
\<close>

datatype py_error = ValueError | IndexError | ZeroDivisionError

text \<open>\<^verbatim>\<open>range(0, stop, step)\<close>: a zero step raises, a negative one yields nothing.\<close>

definition py_range :: "nat \<Rightarrow> int \<Rightarrow> py_error + nat list" where
  "py_range stop step =
     (if step = 0 then Inl ValueError
      else if step < 0 then Inr []
      else Inr (map (\<lambda>k. k * nat step) [0..<(stop + nat step - 1) div nat step]))"

text \<open>The slices \<^verbatim>\<open>xs[:m]\<close> and \<^verbatim>\<open>xs[m:]\<close>; a negative bound counts from the end.\<close>

definition slice_to :: "'a list \<Rightarrow> int \<Rightarrow> 'a list" where
  "slice_to xs m = (if m < 0 then take (nat (int (length xs) + m)) xs else take (nat m) xs)"

definition slice_from :: "'a list \<Rightarrow> int \<Rightarrow> 'a list" where
  "slice_from xs m = (if m < 0 then drop (nat (int (length xs) + m)) xs else drop (nat m) xs)"

text \<open>\<^verbatim>\<open>sep.join(xs)\<close>.\<close>

fun py_join :: "'a list \<Rightarrow> 'a list list \<Rightarrow> 'a list" where
  "py_join sep [] = []"
| "py_join sep [x] = x"
| "py_join sep (x # y # ys) = x @ sep @ py_join sep (y # ys)"

section \<open>Discord utilities (Meri\_Bot.py)\<close>

text \<open>
  \<^verbatim>\<open>def chunk_text(text, chunk_size=1900):
      return [text[i:i+chunk_size] for i in range(0, len(text), chunk_size)]\<close>
\<close>

definition chunk_text :: "'a list \<Rightarrow> int \<Rightarrow> py_error + 'a list list" where
  "chunk_text text chunk_size =
     (case py_range (length text) chunk_size of
        Inl e \<Rightarrow> Inl e
      | Inr starts \<Rightarrow> Inr (map (\<lambda>i. take (nat chunk_size) (drop i text)) starts))"

text \<open>
  \<^verbatim>\<open>_send_limited(ctx, text, max_posts=5)\<close>. The model returns the payloads handed to
  \<^verbatim>\<open>ctx.send\<close>, in order; \<^verbatim>\<open>head[-1]\<close> on an empty \<^verbatim>\<open>head\<close> raises IndexError.
\<close>

definition newline :: string where
  "newline = [CHR 0x0A]"

definition code_block :: "string \<Rightarrow> string" where
  "code_block chunk = ''```'' @ chunk @ ''```''"

definition merge_overflow :: "string list \<Rightarrow> int \<Rightarrow> py_error + string list" where
  "merge_overflow chunks max_posts =
     (if int (length chunks) > max_posts then
        (let head = slice_to chunks max_posts;
             tail = slice_from chunks max_posts
         in if head = [] then Inl IndexError
            else Inr (butlast head @ [last head @ newline @ py_join newline tail]))
      else Inr chunks)"

definition send_limited :: "string \<Rightarrow> int \<Rightarrow> py_error + string list" where
  "send_limited text max_posts =
     (case chunk_text text 1900 of
        Inl e \<Rightarrow> Inl e
      | Inr chunks \<Rightarrow>
          if chunks = [] then Inr []
          else (case merge_overflow chunks max_posts of
                  Inl e \<Rightarrow> Inl e
                | Inr chunks' \<Rightarrow> Inr (map code_block chunks')))"

section \<open>Per-user conversation memory (Meri\_Bot.py)\<close>

text \<open>
  \<^verbatim>\<open>_user_memory: Dict[int, List[Dict[str, str]]] = {}\<close> and \<^verbatim>\<open>MEMORY_TURNS = 5\<close>.
  A stored message is the dict \<^verbatim>\<open>{"role": role, "content": content}\<close>. The arguments
  have their annotated types (\<^verbatim>\<open>user_id: int, role: str, content: str\<close>), so the
  \<^verbatim>\<open>isinstance\<close> guards of the source always pass.
\<close>

record turn =
  role :: string
  content :: string

type_synonym user_memory = "int \<rightharpoonup> turn list"

definition MEMORY_TURNS :: nat where
  "MEMORY_TURNS = 5"

definition get_user_memory :: "user_memory \<Rightarrow> int \<Rightarrow> turn list" where
  "get_user_memory mem user_id = (case mem user_id of None \<Rightarrow> [] | Some history \<Rightarrow> history)"

definition clear_user_memory :: "user_memory \<Rightarrow> int \<Rightarrow> user_memory" where
  "clear_user_memory mem user_id = mem(user_id := None)"

text \<open>
  \<^verbatim>\<open>_remember(user_id, role, content)\<close>: an unknown role becomes \<^verbatim>\<open>"user"\<close>; the message
  is appended to \<^verbatim>\<open>_user_memory.setdefault(user_id, [])\<close>; then
  \<^verbatim>\<open>excess = len(history) - MEMORY_TURNS * 2\<close> and \<^verbatim>\<open>del history[0:excess]\<close> when
  \<^verbatim>\<open>excess > 0\<close>.
\<close>

definition remember :: "user_memory \<Rightarrow> int \<Rightarrow> string \<Rightarrow> string \<Rightarrow> user_memory" where
  "remember mem user_id r c =
     (let r' = (if r \<in> set [''user'', ''assistant'', ''system''] then r else ''user'');
          history = get_user_memory mem user_id @ [\<lparr>role = r', content = c\<rparr>];
          excess = int (length history) - int (MEMORY_TURNS * 2)
      in mem(user_id \<mapsto> (if excess > 0 then drop (nat excess) history else history)))"

text \<open>A sequence of \<^verbatim>\<open>_remember\<close> calls, each given as (user, role, content).\<close>

fun remember_all :: "user_memory \<Rightarrow> (int \<times> string \<times> string) list \<Rightarrow> user_memory" where
  "remember_all mem [] = mem"
| "remember_all mem ((u, r, c) # calls) = remember_all (remember mem u r c) calls"

text \<open>
  What the calls for one user ask to store, in call order: the reference against which
  first-in-first-out eviction is stated.
\<close>

definition requested_turns :: "int \<Rightarrow> (int \<times> string \<times> string) list \<Rightarrow> turn list" where
  "requested_turns user_id calls =
     map (\<lambda>(u, r, c). \<lparr>role = (if r \<in> set [''user'', ''assistant'', ''system''] then r else ''user''),
                        content = c\<rparr>)
         (filter (\<lambda>(u, r, c). u = user_id) calls)"

section \<open>Configuration (config.py)\<close>

text \<open>
  The settings \<open>validate_config\<close> reads, with the types \<^verbatim>\<open>config.py\<close> gives them:
  \<^verbatim>\<open>os.getenv\<close> strings, \<^verbatim>\<open>int(...)\<close> values and one \<^verbatim>\<open>float(...)\<close>. A Python float
  is modelled by the rational number it denotes: arithmetic and comparisons are exact,
  binary64 rounding is not modelled, and NaN and the infinities are not values of the
  model.
\<close>

type_synonym py_float = rat

record config =
  BOT_TOKEN :: string
  LMSTUDIO_MAX_TOKENS :: int
  MODEL_TTL_SECONDS :: int
  MIN_VIDEO_FRAMES :: int
  DEFAULT_VOLUME :: py_float

text \<open>\<^verbatim>\<open>errors.append(msg)\<close> under a condition.\<close>

definition append_if :: "bool \<Rightarrow> string \<Rightarrow> string list \<Rightarrow> string list" where
  "append_if violated msg errors = (if violated then errors @ [msg] else errors)"

definition validate_config :: "config \<Rightarrow> string list" where
  "validate_config cfg =
     (let errors = [];
          errors = append_if (BOT_TOKEN cfg = [])
                     ''BOT_TOKEN is not set. Please set TOKEN in your .env file.'' errors;
          errors = append_if (LMSTUDIO_MAX_TOKENS cfg < -1 \<or> LMSTUDIO_MAX_TOKENS cfg = 0)
                     ''LMSTUDIO_MAX_TOKENS must be -1 (unlimited) or a positive number.'' errors;
          errors = append_if (MODEL_TTL_SECONDS cfg < 0)
                     ''MODEL_TTL_SECONDS must be a non-negative number.'' errors;
          errors = append_if (MIN_VIDEO_FRAMES cfg < 1 \<or> MIN_VIDEO_FRAMES cfg > 20)
                     ''MIN_VIDEO_FRAMES should be between 1 and 20.'' errors;
          errors = append_if (DEFAULT_VOLUME cfg < 0 \<or> DEFAULT_VOLUME cfg > 1)
                     ''DEFAULT_VOLUME must be between 0 and 1.'' errors
      in errors)"

text \<open>
  The module runs the validation when it is imported and prints what it found:
  \<^verbatim>\<open>config_errors = validate_config()\<close>, a header line and one line per error. The
  model gives the lines printed.
\<close>

definition report_config_errors :: "config \<Rightarrow> string list" where
  "report_config_errors cfg =
     (let config_errors = validate_config cfg
      in if config_errors \<noteq> [] then
           ''Configuration errors detected:'' # map (\<lambda>error. ''  - '' @ error) config_errors
         else [])"

section \<open>Local-file frame sampler (Meri\_Bot.py)\<close>

text \<open>
  What \<^verbatim>\<open>ffprobe\<close> can do, as far as \<^verbatim>\<open>_extract_video_frames_from_file\<close> looks at it:
  \<^verbatim>\<open>subprocess.run\<close> raises; or it returns an exit status and an output. The output is
  only read when the status is 0: parsing it (\<^verbatim>\<open>json.loads\<close>, reading the streams)
  raises, or gives whether a video stream is present and the \<^verbatim>\<open>format.duration\<close> field,
  which is absent (read as 0), not convertible by \<^verbatim>\<open>float(...)\<close>, or a number.
\<close>

datatype duration_field = DurationMissing | DurationInvalid | Duration py_float

datatype probe_output = OutputUnparseable | Output bool duration_field

datatype probe_result = ProbeRunRaises | ProbeExit int probe_output

text \<open>
  Step 1 (the inner \<^verbatim>\<open>try\<close>): \<open>None\<close> is an early \<^verbatim>\<open>return frames_base64\<close>; any
  exception sets \<^verbatim>\<open>duration = 60.0\<close>.
\<close>

definition probe_duration :: "probe_result \<Rightarrow> py_float option" where
  "probe_duration p =
     (case p of
        ProbeRunRaises \<Rightarrow> Some 60
      | ProbeExit returncode out \<Rightarrow>
          if returncode \<noteq> 0 then None
          else (case out of
                  OutputUnparseable \<Rightarrow> Some 60
                | Output has_video d \<Rightarrow>
                    if \<not> has_video then None
                    else (case d of
                            DurationMissing \<Rightarrow> Some 0
                          | DurationInvalid \<Rightarrow> Some 60
                          | Duration x \<Rightarrow> Some x)))"

text \<open>
  The loop of the short branch, over \<^verbatim>\<open>range(max_frames)\<close>:
  \<^verbatim>\<open>timestamp = (i + 0.5) * interval\<close>, appended while below the duration, \<^verbatim>\<open>break\<close>
  at the first one that is not.
\<close>

fun short_video_loop :: "py_float \<Rightarrow> py_float \<Rightarrow> int list \<Rightarrow> py_float list" where
  "short_video_loop interval duration [] = []"
| "short_video_loop interval duration (i # rest) =
     (let timestamp = (of_int i + 1 / 2) * interval
      in if timestamp < duration then timestamp # short_video_loop interval duration rest
         else [])"

text \<open>
  Step 2. A division by \<^verbatim>\<open>max_frames\<close> (or \<^verbatim>\<open>max_frames + 1\<close>) equal to 0 raises
  ZeroDivisionError. The last line is \<^verbatim>\<open>timestamps = timestamps[:max_frames]\<close>.
\<close>

definition sample_timestamps :: "py_float \<Rightarrow> int \<Rightarrow> py_error + py_float list" where
  "sample_timestamps duration max_frames =
     (if duration \<le> 5 then
        (if max_frames = 0 then Inl ZeroDivisionError
         else (let interval = max (1 / 2) (duration / of_int max_frames)
               in Inr (slice_to (short_video_loop interval duration [0..max_frames - 1])
                         max_frames)))
      else
        (if max_frames + 1 = 0 then Inl ZeroDivisionError
         else (let step = duration / of_int (max_frames + 1)
               in Inr (slice_to (map (\<lambda>i. of_int i * step) [1..max_frames]) max_frames))))"

text \<open>
  The function up to the start of step 3: it has returned the empty list early, or the
  outer \<^verbatim>\<open>except\<close> has caught an exception (and returns the empty list), or it goes on
  to run \<^verbatim>\<open>ffmpeg\<close> once for each of the computed timestamps.
\<close>

datatype sampler_result = ReturnedEarly | Failed py_error | Extracting "py_float list"

definition extract_video_frames_from_file :: "probe_result \<Rightarrow> int \<Rightarrow> sampler_result" where
  "extract_video_frames_from_file p max_frames =
     (case probe_duration p of
        None \<Rightarrow> ReturnedEarly
      | Some duration \<Rightarrow>
          if duration \<le> 0 then ReturnedEarly
          else (case sample_timestamps duration max_frames of
                  Inl e \<Rightarrow> Failed e
                | Inr timestamps \<Rightarrow> Extracting timestamps))"

section \<open>String helpers\<close>

text \<open>\<^verbatim>\<open>text.startswith(p)\<close> and \<^verbatim>\<open>needle in text\<close>.\<close>

fun starts_with :: "'a list \<Rightarrow> 'a list \<Rightarrow> bool" where
  "starts_with text [] = True"
| "starts_with [] (p # ps) = False"
| "starts_with (c # cs) (p # ps) = (c = p \<and> starts_with cs ps)"

fun py_in :: "'a list \<Rightarrow> 'a list \<Rightarrow> bool" where
  "py_in needle [] = (needle = [])"
| "py_in needle (c # cs) = (starts_with (c # cs) needle \<or> py_in needle cs)"

text \<open>\<^verbatim>\<open>any(keyword in text for keyword in keywords)\<close>.\<close>

fun any_keyword_in :: "string list \<Rightarrow> string \<Rightarrow> bool" where
  "any_keyword_in [] text = False"
| "any_keyword_in (k # ks) text = (py_in k text \<or> any_keyword_in ks text)"

text \<open>
  \<^verbatim>\<open>str.lower()\<close> on code points below 256: the upper-case letters A--Z and the
  Latin-1 capitals 192--214 and 216--222 move up by 32.
\<close>

definition lower_char :: "char \<Rightarrow> char" where
  "lower_char c =
     (let n = (of_char c :: nat)
      in if (65 \<le> n \<and> n \<le> 90) \<or> (192 \<le> n \<and> n \<le> 214) \<or> (216 \<le> n \<and> n \<le> 222)
         then char_of (n + 32) else c)"

definition py_lower :: "string \<Rightarrow> string" where
  "py_lower s = map lower_char s"

section \<open>Voice connection handler (voice\_handler.py)\<close>

text \<open>
  What the platform does during a join: the results of \<^verbatim>\<open>check_gateway_health\<close> and
  \<^verbatim>\<open>validate_voice_permissions\<close> (both catch their own exceptions), and what
  \<^verbatim>\<open>channel.connect\<close> does at each attempt: it returns a voice client (whose websocket
  may already be closed), returns \<^verbatim>\<open>None\<close>, or raises \<^verbatim>\<open>discord.ClientException\<close>,
  \<^verbatim>\<open>asyncio.TimeoutError\<close> or another exception, with its message.
\<close>

datatype connect_outcome =
    Connects bool
  | ConnectsNone
  | ClientException string
  | TimeoutError
  | OtherException string

record voice_env =
  gateway_healthy :: bool
  permissions_valid :: bool
  connect :: "nat \<Rightarrow> connect_outcome"

text \<open>
  The values \<^verbatim>\<open>attempt_voice_connection\<close> returns: a voice client, one of the four
  strings, or \<^verbatim>\<open>None\<close>.
\<close>

datatype attempt_result =
    VoiceClient
  | Error4006
  | StateMismatch
  | PermissionError
  | GatewayError
  | NoResult

definition classify_client_exception :: "string \<Rightarrow> attempt_result" where
  "classify_client_exception msg =
     (let error_msg = py_lower msg
      in if any_keyword_in [''4006'', ''session no longer valid'', ''session invalid'',
                            ''voice session''] error_msg then Error4006
         else if any_keyword_in [''already connected'', ''state'', ''connection state'']
                   error_msg then StateMismatch
         else if any_keyword_in [''permission'', ''forbidden'', ''missing access'']
                   error_msg then PermissionError
         else if any_keyword_in [''gateway'', ''websocket'', ''heartbeat'']
                   error_msg then GatewayError
         else NoResult)"

definition attempt_voice_connection :: "voice_env \<Rightarrow> nat \<Rightarrow> attempt_result" where
  "attempt_voice_connection env attempt =
     (if attempt = 1 \<and> \<not> gateway_healthy env then GatewayError
      else if attempt = 1 \<and> \<not> permissions_valid env then PermissionError
      else (case connect env attempt of
              Connects ws_closed \<Rightarrow> if ws_closed then Error4006 else VoiceClient
            | ConnectsNone \<Rightarrow> NoResult
            | ClientException msg \<Rightarrow> classify_client_exception msg
            | TimeoutError \<Rightarrow> if attempt > 1 then Error4006 else NoResult
            | OtherException msg \<Rightarrow>
                if any_keyword_in [''session'', ''voice'', ''connection'', ''websocket'']
                     (py_lower msg)
                then Error4006 else NoResult))"

text \<open>
  The waiting inside one attempt: \<^verbatim>\<open>min(attempt ** 2, 15)\<close> seconds before every attempt
  but the first, and the connection timeout \<^verbatim>\<open>20 + attempt * 5\<close>.
\<close>

definition attempt_backoff :: "nat \<Rightarrow> nat" where
  "attempt_backoff attempt = (if attempt > 1 then min (attempt ^ 2) 15 else 0)"

definition attempt_timeout :: "nat \<Rightarrow> nat" where
  "attempt_timeout attempt = 20 + attempt * 5"

text \<open>
  What the retry loop of \<^verbatim>\<open>join_voice_channel\<close> does, in order: a call of
  \<^verbatim>\<open>attempt_voice_connection\<close>; a call of \<^verbatim>\<open>force_cleanup_voice_state\<close>; the deep
  cleanup of a repeated 4006 error (every step of it inside its own \<^verbatim>\<open>try\<close>); a
  direct \<^verbatim>\<open>asyncio.sleep(n)\<close> of the handling code; the announced retry delay
  (\<^verbatim>\<open>retrying in {delay}s...\<close> followed by \<^verbatim>\<open>asyncio.sleep(delay)\<close>); the final
  reports.
\<close>

datatype event =
    Attempt nat
  | ForceCleanup
  | DeepCleanup
  | Sleep nat
  | RetryDelay nat
  | ReportConnected
  | ReportMissingPermissions
  | ReportFailure

definition handle_result :: "attempt_result \<Rightarrow> nat \<Rightarrow> nat \<Rightarrow> event list" where
  "handle_result result attempt max_attempts =
     (case result of
        Error4006 \<Rightarrow>
          [ForceCleanup] @ (if attempt \<ge> 2 then [DeepCleanup] else [])
            @ (if attempt \<ge> 3 then [Sleep 5] else [])
      | GatewayError \<Rightarrow> (if attempt < max_attempts then [Sleep 10] else [])
      | StateMismatch \<Rightarrow> [ForceCleanup, Sleep 5]
      | _ \<Rightarrow> [])"

definition retry_wait :: "attempt_result \<Rightarrow> nat \<Rightarrow> nat \<Rightarrow> event list" where
  "retry_wait result attempt max_attempts =
     (if attempt < max_attempts then
        (if result = Error4006 then [RetryDelay (attempt * 3)]
         else if result \<noteq> GatewayError then [RetryDelay (attempt * 2)]
         else [])
      else [])"

text \<open>\<^verbatim>\<open>for attempt in range(1, max_attempts + 1)\<close>, then the report after the loop.\<close>

fun join_attempts :: "voice_env \<Rightarrow> nat \<Rightarrow> nat list \<Rightarrow> event list \<times> bool" where
  "join_attempts env max_attempts [] = ([ReportFailure], False)"
| "join_attempts env max_attempts (attempt # rest) =
     (let result = attempt_voice_connection env attempt
      in if result = VoiceClient then ([Attempt attempt, ReportConnected], True)
         else if result = PermissionError
           then ([Attempt attempt, ReportMissingPermissions], False)
         else (let (events, joined) = join_attempts env max_attempts rest
               in (Attempt attempt # handle_result result attempt max_attempts
                     @ retry_wait result attempt max_attempts @ events, joined)))"

definition join_retry_loop :: "voice_env \<Rightarrow> event list \<times> bool" where
  "join_retry_loop env = (let max_attempts = 5 in join_attempts env max_attempts [1..<max_attempts + 1])"

fun attempts_made :: "event list \<Rightarrow> nat list" where
  "attempts_made [] = []"
| "attempts_made (Attempt k # es) = k # attempts_made es"
| "attempts_made (e # es) = attempts_made es"

fun retry_delays :: "event list \<Rightarrow> nat list" where
  "retry_delays [] = []"
| "retry_delays (RetryDelay d # es) = d # retry_delays es"
| "retry_delays (e # es) = retry_delays es"

section \<open>Web search helper (Meri\_Bot.py)\<close>

text \<open>
  The character classes of Python 3 on \<^verbatim>\<open>str\<close>, for code points below 256:
  \<^verbatim>\<open>str.isspace\<close> (used by \<^verbatim>\<open>strip\<close>, \<^verbatim>\<open>split\<close> and the pattern \<^verbatim>\<open>\s\<close>) and the
  word characters of \<^verbatim>\<open>\w\<close> (alphanumeric or underscore).
\<close>

definition is_space :: "char \<Rightarrow> bool" where
  "is_space c =
     (let n = (of_char c :: nat)
      in (9 \<le> n \<and> n \<le> 13) \<or> (28 \<le> n \<and> n \<le> 32) \<or> n = 133 \<or> n = 160)"

definition is_word_char :: "char \<Rightarrow> bool" where
  "is_word_char c =
     (let n = (of_char c :: nat)
      in (48 \<le> n \<and> n \<le> 57) \<or> (65 \<le> n \<and> n \<le> 90) \<or> n = 95 \<or> (97 \<le> n \<and> n \<le> 122)
         \<or> n = 170 \<or> n = 178 \<or> n = 179 \<or> n = 181 \<or> n = 185 \<or> n = 186
         \<or> (188 \<le> n \<and> n \<le> 190) \<or> (192 \<le> n \<and> n \<le> 214)
         \<or> (216 \<le> n \<and> n \<le> 246) \<or> (248 \<le> n \<and> n \<le> 255))"

text \<open>\<^verbatim>\<open>s.strip()\<close>.\<close>

definition py_strip :: "string \<Rightarrow> string" where
  "py_strip s = rev (dropWhile is_space (rev (dropWhile is_space s)))"

text \<open>The characters the pattern \<^verbatim>\<open>[^\w\s\-\.\,\?\!\:]\<close> does not match.\<close>

definition allowed_char :: "char \<Rightarrow> bool" where
  "allowed_char c = (is_word_char c \<or> is_space c \<or> c \<in> set ''-.,?!:'')"

text \<open>\<^verbatim>\<open>re.sub(r'\s+', ' ', s)\<close>: every maximal run of whitespace becomes one space.\<close>

function collapse_whitespace :: "string \<Rightarrow> string" where
  "collapse_whitespace [] = []"
| "collapse_whitespace (c # cs) =
     (if is_space c then CHR '' '' # collapse_whitespace (dropWhile is_space cs)
      else c # collapse_whitespace cs)"
  by pat_completeness auto
termination
  by (relation "measure length") (auto simp: length_dropWhile_le less_Suc_eq_le)

text \<open>
  Lines 73--82 of \<^verbatim>\<open>_ddg_search\<close>: strip, cut after 500 characters and append
  \<^verbatim>\<open>"..."\<close>, replace every character outside the allow-list by a space, collapse
  whitespace and strip again.
\<close>

definition sanitize_query :: "string \<Rightarrow> string" where
  "sanitize_query query =
     (let original_query = py_strip query;
          query = (if length original_query > 500 then take 500 original_query @ ''...''
                   else original_query);
          query = map (\<lambda>c. if allowed_char c then c else CHR '' '') query;
          query = py_strip (collapse_whitespace query)
      in query)"

text \<open>
  An already sanitized query, in the words of the specification: at most 500
  characters, only allowed characters, and whitespace collapsed, which is: the only
  whitespace is the space character, no two spaces are adjacent, and none is at either
  end.
\<close>

fun single_spaced :: "string \<Rightarrow> bool" where
  "single_spaced [] = True"
| "single_spaced [c] = (is_space c = (c = CHR '' ''))"
| "single_spaced (c # d # cs) =
     (is_space c = (c = CHR '' '') \<and> \<not> (is_space c \<and> is_space d) \<and> single_spaced (d # cs))"

definition whitespace_collapsed :: "string \<Rightarrow> bool" where
  "whitespace_collapsed q =
     (single_spaced q \<and> (q = [] \<or> (\<not> is_space (hd q) \<and> \<not> is_space (last q))))"

definition already_sanitized :: "string \<Rightarrow> bool" where
  "already_sanitized q =
     (length q \<le> 500 \<and> list_all allowed_char q \<and> whitespace_collapsed q)"

text \<open>
  \<^verbatim>\<open>s.split()\<close>: the maximal runs of non-whitespace characters.
\<close>

function py_split :: "string \<Rightarrow> string list" where
  "py_split s =
     (let rest = dropWhile is_space s
      in if rest = [] then []
         else takeWhile (\<lambda>c. \<not> is_space c) rest
                # py_split (dropWhile (\<lambda>c. \<not> is_space c) rest))"
  by pat_completeness auto
termination
proof (relation "measure length")
  show "wf (measure length)" by simp
next
  fix s rest :: string
  assume r: "rest = dropWhile is_space s" and ne: "rest \<noteq> []"
  have "\<not> is_space (hd rest)" using ne unfolding r by (rule hd_dropWhile)
  then have "dropWhile (\<lambda>c. \<not> is_space c) rest = dropWhile (\<lambda>c. \<not> is_space c) (tl rest)"
    using ne by (cases rest) auto
  then have "length (dropWhile (\<lambda>c. \<not> is_space c) rest)
      = length (dropWhile (\<lambda>c. \<not> is_space c) (tl rest))"
    by (rule arg_cong)
  also have "\<dots> \<le> length (tl rest)" by (rule length_dropWhile_le)
  also have "\<dots> < length rest" using ne by (cases rest) auto
  also have "\<dots> \<le> length s" unfolding r by (rule length_dropWhile_le)
  finally show "(dropWhile (\<lambda>c. \<not> is_space c) rest, s) \<in> measure length" by simp
qed

text \<open>
  The search clients, as \<^verbatim>\<open>_ddg_search\<close> uses them. A call of \<^verbatim>\<open>DDGS(...).text(...)\<close>
  (with the construction of the client and the iteration over what it returns) yields
  some results and then either ends or raises; the legacy function \<^verbatim>\<open>ddg\<close> returns a
  list (\<^verbatim>\<open>None\<close> is read as the empty list) or raises. \<^verbatim>\<open>DDGS\<close> may fail to import, and
  \<^verbatim>\<open>ddg\<close> is \<^verbatim>\<open>None\<close> when its import failed. The exceptions are subclasses of
  \<^verbatim>\<open>Exception\<close>.
\<close>

datatype search_exception = ImportError | ClientError

datatype 'r text_outcome = Yields "'r list" bool

datatype 'r legacy_outcome = LegacyRaises | LegacyReturns "'r list"

record 'r search_env =
  ddgs_importable :: bool
  ddgs_text :: "string \<Rightarrow> int \<Rightarrow> 'r text_outcome"
  ddgs_alt_text :: "string \<Rightarrow> int \<Rightarrow> 'r text_outcome"
  ddg :: "(string \<Rightarrow> int \<Rightarrow> 'r legacy_outcome) option"
  ddgs_text_retry :: "string \<Rightarrow> int \<Rightarrow> 'r text_outcome"

text \<open>The client calls the helper makes, with the query sent.\<close>

datatype search_call =
    PrimaryCall string
  | AlternateCall string
  | LegacyCall string
  | SimplifiedCall string

text \<open>
  \<^verbatim>\<open>for r in search_results: results.append(r); if len(results) >= max_results: break\<close>.
  The second component tells whether the loop left by \<^verbatim>\<open>break\<close>.
\<close>

fun collect_results :: "'r list \<Rightarrow> 'r list \<Rightarrow> int \<Rightarrow> 'r list \<times> bool" where
  "collect_results results [] max_results = (results, False)"
| "collect_results results (r # rs) max_results =
     (let results = results @ [r]
      in if int (length results) \<ge> max_results then (results, True)
         else collect_results results rs max_results)"

text \<open>
  One \<^verbatim>\<open>with DDGS(...) as ddgs\<close> block appending to the list \<open>results\<close>: the list as the
  block leaves it, and whether the block raised (it does not when the loop left by
  \<^verbatim>\<open>break\<close> first).
\<close>

definition run_text_call :: "'r list \<Rightarrow> 'r text_outcome \<Rightarrow> int \<Rightarrow> 'r list \<times> bool" where
  "run_text_call results outcome max_results =
     (case outcome of
        Yields items raises \<Rightarrow>
          (let (results, broke) = collect_results results items max_results
           in (results, \<not> broke \<and> raises)))"

text \<open>
  Method 1, the body of the outer \<^verbatim>\<open>try\<close> up to the test of \<^verbatim>\<open>ddgs_results\<close>: the
  import, the default client and, when that raises, the alternate client on the same
  list; an exception of the alternate client is raised again.
\<close>

definition ddgs_method ::
  "'r search_env \<Rightarrow> string \<Rightarrow> int \<Rightarrow> search_call list \<times> (search_exception + 'r list)" where
  "ddgs_method env query max_results =
     (if \<not> ddgs_importable env then ([], Inl ImportError)
      else (let (ddgs_results, raised) =
                  run_text_call [] (ddgs_text env query max_results) max_results
            in if \<not> raised then ([PrimaryCall query], Inr ddgs_results)
               else (let (ddgs_results, raised) =
                           run_text_call ddgs_results (ddgs_alt_text env query max_results)
                             max_results
                     in if raised then ([PrimaryCall query, AlternateCall query], Inl ClientError)
                        else ([PrimaryCall query, AlternateCall query], Inr ddgs_results))))"

text \<open>Method 2: \<open>Some data\<close> is \<^verbatim>\<open>return data\<close>; an exception is caught and logged.\<close>

definition legacy_method ::
  "'r search_env \<Rightarrow> string \<Rightarrow> int \<Rightarrow> search_call list \<times> 'r list option" where
  "legacy_method env query max_results =
     (case ddg env of
        None \<Rightarrow> ([], None)
      | Some f \<Rightarrow>
          (case f query max_results of
             LegacyRaises \<Rightarrow> ([LegacyCall query], None)
           | LegacyReturns data \<Rightarrow>
               if data \<noteq> [] then ([LegacyCall query], Some data)
               else ([LegacyCall query], None)))"

text \<open>
  Method 3, inside its own \<^verbatim>\<open>try\<close>: the import is repeated, and the query is
  \<^verbatim>\<open>' '.join(query.split()[:10])\<close>.
\<close>

definition simplified_query :: "string \<Rightarrow> string" where
  "simplified_query query = py_join '' '' (slice_to (py_split query) 10)"

definition simplified_method ::
  "'r search_env \<Rightarrow> string \<Rightarrow> int \<Rightarrow> search_call list \<times> (search_exception + 'r list)" where
  "simplified_method env query max_results =
     (if \<not> ddgs_importable env then ([], Inl ImportError)
      else (let (simplified_results, raised) =
                  run_text_call [] (ddgs_text_retry env (simplified_query query) max_results)
                    max_results
            in if raised then ([SimplifiedCall (simplified_query query)], Inl ClientError)
               else ([SimplifiedCall (simplified_query query)], Inr simplified_results)))"

text \<open>
  \<^verbatim>\<open>_ddg_search(query, max_results=5)\<close>: the calls made and the list returned, or an
  exception that reaches the caller. Every \<^verbatim>\<open>except Exception\<close> (and
  \<^verbatim>\<open>except ImportError\<close>) handler only logs and goes on.
\<close>

definition ddg_search ::
  "'r search_env \<Rightarrow> string \<Rightarrow> int \<Rightarrow> search_exception + (search_call list \<times> 'r list)" where
  "ddg_search env query max_results =
     (if query = [] \<or> py_strip query = [] then Inr ([], [])
      else (let query = sanitize_query query
            in if query = [] then Inr ([], [])
               else (let (calls1, r1) = ddgs_method env query max_results;
                         found1 = (case r1 of
                                     Inr ddgs_results \<Rightarrow>
                                       if ddgs_results \<noteq> [] then Some ddgs_results else None
                                   | Inl ImportError \<Rightarrow> None
                                   | Inl ClientError \<Rightarrow> None)
                     in case found1 of
                          Some ddgs_results \<Rightarrow> Inr (calls1, ddgs_results)
                        | None \<Rightarrow>
                            (let (calls2, found2) = legacy_method env query max_results
                             in case found2 of
                                  Some data \<Rightarrow> Inr (calls1 @ calls2, data)
                                | None \<Rightarrow>
                                    (if length query > 100 then
                                       (let (calls3, r3) =
                                              simplified_method env query max_results;
                                            found3 = (case r3 of
                                                        Inr simplified_results \<Rightarrow>
                                                          if simplified_results \<noteq> []
                                                          then Some simplified_results else None
                                                      | Inl e \<Rightarrow> None)
                                        in case found3 of
                                             Some simplified_results \<Rightarrow>
                                               Inr (calls1 @ calls2 @ calls3, simplified_results)
                                           | None \<Rightarrow> Inr (calls1 @ calls2 @ calls3, []))
                                     else Inr (calls1 @ calls2, []))))))"

declare py_split.simps [simp del]

text \<open>
  Total failure: no client call yields a result (it raises, or ends with nothing). And
  the case the specification tests: both clients are available and every call raises
  at once.
\<close>

definition yields_nothing :: "'r text_outcome \<Rightarrow> bool" where
  "yields_nothing outcome = (case outcome of Yields items raises \<Rightarrow> items = [])"

definition returns_nothing :: "'r legacy_outcome \<Rightarrow> bool" where
  "returns_nothing outcome =
     (case outcome of LegacyRaises \<Rightarrow> True | LegacyReturns data \<Rightarrow> data = [])"

definition total_failure :: "'r search_env \<Rightarrow> bool" where
  "total_failure env =
     ((\<forall>q n. yields_nothing (ddgs_text env q n))
      \<and> (\<forall>q n. yields_nothing (ddgs_alt_text env q n))
      \<and> (\<forall>q n. yields_nothing (ddgs_text_retry env q n))
      \<and> (\<forall>f q n. ddg env = Some f \<longrightarrow> returns_nothing (f q n)))"

definition every_call_raises :: "'r search_env \<Rightarrow> bool" where
  "every_call_raises env =
     (ddgs_importable env
      \<and> (\<forall>q n. ddgs_text env q n = Yields [] True)
      \<and> (\<forall>q n. ddgs_alt_text env q n = Yields [] True)
      \<and> (\<forall>q n. ddgs_text_retry env q n = Yields [] True)
      \<and> (\<exists>f. ddg env = Some f \<and> (\<forall>q n. f q n = LegacyRaises)))"

section \<open>Response cleanup (reason.py)\<close>

text \<open>
  The text after the first occurrence of \<open>needle\<close> (\<open>None\<close> when there is none), and the
  text before it (the whole text when there is none).
\<close>

fun find_after :: "'a list \<Rightarrow> 'a list \<Rightarrow> 'a list option" where
  "find_after needle [] = (if needle = [] then Some [] else None)"
| "find_after needle (c # cs) =
     (if starts_with (c # cs) needle then Some (drop (length needle) (c # cs))
      else find_after needle cs)"

fun cut_at :: "'a list \<Rightarrow> 'a list \<Rightarrow> 'a list" where
  "cut_at needle [] = []"
| "cut_at needle (c # cs) = (if starts_with (c # cs) needle then [] else c # cut_at needle cs)"

lemma find_after_length: "find_after needle s = Some rest \<Longrightarrow> length rest \<le> length s"
  by (induction s) (auto split: if_splits)

text \<open>
  \<^verbatim>\<open>re.sub(r"<think>.*?</think>", "", s, flags=re.DOTALL)\<close>: scanning from the left, an
  opening tag that has a closing tag after it is removed together with everything up to
  the first such closing tag, and the scan goes on behind it.
\<close>

definition think_open :: string where
  "think_open = ''<think>''"

definition think_close :: string where
  "think_close = ''</think>''"

function remove_think_blocks :: "string \<Rightarrow> string" where
  "remove_think_blocks [] = []"
| "remove_think_blocks (c # cs) =
     (if starts_with (c # cs) think_open then
        (case find_after think_close (drop (length think_open) (c # cs)) of
           Some rest \<Rightarrow> remove_think_blocks rest
         | None \<Rightarrow> c # remove_think_blocks cs)
      else c # remove_think_blocks cs)"
  by pat_completeness auto
termination
proof (relation "measure length")
  show "wf (measure length)" by simp
next
  fix c :: char and cs rest :: string
  assume "find_after think_close (drop (length think_open) (c # cs)) = Some rest"
  then have "length rest \<le> length (drop (length think_open) (c # cs))"
    by (rule find_after_length)
  then show "(rest, c # cs) \<in> measure length" by (simp add: think_open_def)
qed simp_all

text \<open>
  \<^verbatim>\<open>re.sub(r"<think>.*", "", s, flags=re.DOTALL)\<close> removes everything from the first
  opening tag on: \<open>cut_at think_open\<close>.

  \<^verbatim>\<open>s.replace(old, "")\<close> for a non-empty \<open>old\<close> (with an empty one the string is
  unchanged): the occurrences found scanning from the left, not overlapping.
\<close>

function remove_all :: "'a list \<Rightarrow> 'a list \<Rightarrow> 'a list" where
  "remove_all old [] = []"
| "remove_all old (c # cs) =
     (if old \<noteq> [] \<and> starts_with (c # cs) old then remove_all old (drop (length old) (c # cs))
      else c # remove_all old cs)"
  by pat_completeness auto
termination
  by (relation "measure (\<lambda>(old, s). length s)") (auto simp: Suc_le_eq)

definition strip_think :: "string \<Rightarrow> string" where
  "strip_think accumulated =
     (let accumulated = remove_think_blocks accumulated;
          accumulated = cut_at think_open accumulated;
          accumulated = remove_all think_close (remove_all think_open accumulated)
      in accumulated)"

text \<open>
  \<^verbatim>\<open>s.split(marker)[-1]\<close> for a non-empty marker (the markers are literals): the text
  after the last of the occurrences found scanning from the left.
\<close>

function after_last :: "'a list \<Rightarrow> 'a list \<Rightarrow> 'a list" where
  "after_last marker s =
     (if marker = [] then s
      else (case find_after marker s of None \<Rightarrow> s | Some rest \<Rightarrow> after_last marker rest))"
  by pat_completeness auto

lemma find_after_shorter:
  "needle \<noteq> [] \<Longrightarrow> find_after needle s = Some rest \<Longrightarrow> length rest < length s"
  by (induction s) (auto split: if_splits)

termination after_last
proof (relation "measure (\<lambda>(marker, s). length s)")
  show "wf (measure (\<lambda>(marker, s). length s))" by simp
next
  fix marker s rest :: "'a list"
  assume "marker \<noteq> []" and "find_after marker s = Some rest"
  then have "length rest < length s" by (rule find_after_shorter)
  then show "((marker, rest), (marker, s)) \<in> measure (\<lambda>(marker, s). length s)" by simp
qed

declare after_last.simps [simp del]

text \<open>
  \<^verbatim>\<open>for marker in [...]: if marker in accumulated:
      accumulated = accumulated.split(marker)[-1].strip()\<close>
\<close>

definition final_answer_markers :: "string list" where
  "final_answer_markers = [''FINAL ANSWER:'', ''Final Answer:'', ''### Answer'', ''Answer:'']"

definition apply_marker :: "string \<Rightarrow> string \<Rightarrow> string" where
  "apply_marker accumulated marker =
     (if py_in marker accumulated then py_strip (after_last marker accumulated)
      else accumulated)"

definition keep_final_answer :: "string \<Rightarrow> string" where
  "keep_final_answer accumulated = foldl apply_marker accumulated final_answer_markers"

text \<open>
  \<^verbatim>\<open>re.sub(r"\\boxed\s*{([^}]+)}", r"\1", s)\<close>. A match at the head of the text:
  \<^verbatim>\<open>\boxed\<close>, any whitespace, an opening brace, one or more characters other than a
  closing brace, and a closing brace. It gives the characters between the braces and
  the text behind the match.
\<close>

definition boxed :: string where
  "boxed = CHR 0x5C # ''boxed''"

definition match_boxed :: "string \<Rightarrow> (string \<times> string) option" where
  "match_boxed s =
     (if starts_with s boxed then
        (case dropWhile is_space (drop (length boxed) s) of
           [] \<Rightarrow> None
         | b # inner \<Rightarrow>
             if b = CHR ''{'' then
               (let body = takeWhile (\<lambda>c. c \<noteq> CHR ''}'') inner;
                    rest = dropWhile (\<lambda>c. c \<noteq> CHR ''}'') inner
                in if body \<noteq> [] \<and> rest \<noteq> [] then Some (body, tl rest) else None)
             else None)
      else None)"

lemma match_boxed_shorter: "match_boxed s = Some (body, rest) \<Longrightarrow> length rest < length s"
proof -
  assume a: "match_boxed s = Some (body, rest)"
  then obtain inner where i: "dropWhile is_space (drop (length boxed) s) = CHR ''{'' # inner"
    and r: "rest = tl (dropWhile (\<lambda>c. c \<noteq> CHR ''}'') inner)"
    by (auto simp: match_boxed_def Let_def split: if_splits list.splits)
  have "length (dropWhile (\<lambda>c. c \<noteq> CHR ''}'') inner) \<le> length inner"
    by (rule length_dropWhile_le)
  then have "length rest \<le> length inner"
    unfolding r by simp
  also have "\<dots> < length (dropWhile is_space (drop (length boxed) s))"
    unfolding i by simp
  also have "\<dots> \<le> length (drop (length boxed) s)" by (rule length_dropWhile_le)
  also have "\<dots> \<le> length s" by simp
  finally show ?thesis .
qed

function unbox :: "string \<Rightarrow> string" where
  "unbox [] = []"
| "unbox (c # cs) =
     (case match_boxed (c # cs) of
        Some (body, rest) \<Rightarrow> body @ unbox rest
      | None \<Rightarrow> c # unbox cs)"
  by pat_completeness auto
termination
proof (relation "measure length")
  show "wf (measure length)" by simp
next
  fix c :: char and cs body rest :: string and x
  assume "match_boxed (c # cs) = Some x" and "(body, rest) = x"
  then have "length rest < length (c # cs)" using match_boxed_shorter by metis
  then show "(rest, c # cs) \<in> measure length" by simp
qed simp_all

text \<open>
  The cleanup of \<^verbatim>\<open>llama_chat\<close> (lines 921--934), applied to a non-empty accumulated
  response.
\<close>

definition cleanup_response :: "string \<Rightarrow> string" where
  "cleanup_response accumulated =
     (let accumulated = strip_think accumulated;
          accumulated = keep_final_answer accumulated;
          accumulated = unbox accumulated;
          accumulated = py_strip (remove_all boxed accumulated)
      in accumulated)"

text \<open>
  The cleanup as the specification words it, for comparison with \<open>cleanup_response\<close>:
  the think blocks are stripped, only the text after the last occurrence of any
  final-answer marker is kept (the occurrence that starts last, whichever marker it is
  of), and the boxed notation is unwrapped.
\<close>

fun after_last_of_any :: "string list \<Rightarrow> string \<Rightarrow> string option" where
  "after_last_of_any markers [] = None"
| "after_last_of_any markers (c # cs) =
     (case after_last_of_any markers cs of
        Some behind \<Rightarrow> Some behind
      | None \<Rightarrow>
          (case find (starts_with (c # cs)) markers of
             Some m \<Rightarrow> Some (drop (length m) (c # cs))
           | None \<Rightarrow> None))"

definition keep_after_last_marker :: "string \<Rightarrow> string" where
  "keep_after_last_marker t =
     (case after_last_of_any final_answer_markers t of
        None \<Rightarrow> t
      | Some behind \<Rightarrow> py_strip behind)"

definition cleanup_as_specified :: "string \<Rightarrow> string" where
  "cleanup_as_specified accumulated =
     py_strip (remove_all boxed (unbox (keep_after_last_marker (strip_think accumulated))))"

section \<open>Properties of chunking\<close>

lemma concat_slices:
  "concat (map (\<lambda>k. take n (drop (k * n) xs)) [0..<m]) = take (m * n) xs"
proof (induction m)
  case 0
  show ?case by simp
next
  case (Suc m)
  have "take (m * n) xs @ take n (drop (m * n) xs) = take (m * n + n) xs"
    by (simp add: take_add)
  with Suc show ?case by (simp add: add.commute)
qed

lemma ceil_div_covers:
  fixes l n :: nat
  assumes "0 < n"
  shows "l \<le> ((l + n - 1) div n) * n"
proof -
  have "l + n - 1 < ((l + n - 1) div n) * n + n"
    using assms by (metis add.commute div_mult_mod_eq mod_less_divisor nat_add_left_cancel_less mult.commute)
  then show ?thesis using assms by linarith
qed

lemma ceil_div_tight:
  fixes l n k :: nat
  assumes "0 < n" and "Suc k < (l + n - 1) div n"
  shows "Suc k * n < l"
proof -
  have "Suc (Suc k) \<le> (l + n - 1) div n" using assms(2) by simp
  then have "Suc (Suc k) * n \<le> ((l + n - 1) div n) * n"
    by (rule mult_le_mono1)
  also have "\<dots> \<le> l + n - 1" by simp
  finally show ?thesis using assms(1) by simp
qed

lemma chunk_text_pos:
  "0 < n \<Longrightarrow> chunk_text xs (int n) =
     Inr (map (\<lambda>k. take n (drop (k * n) xs)) [0..<(length xs + n - 1) div n])"
  by (simp add: chunk_text_def py_range_def comp_def)

lemma chunk_text_1900:
  "chunk_text xs 1900 =
     Inr (map (\<lambda>k. take 1900 (drop (k * 1900) xs)) [0..<(length xs + 1899) div 1900])"
  using chunk_text_pos [of 1900 xs] by (simp add: add.commute)

text \<open>
  C10. For every string \<open>s\<close>, \<open>chunk_text\<close> at the chunk size 1900 returns a partition of
  \<open>s\<close>: the chunks concatenated in order give \<open>s\<close> back, every chunk has at most 1900
  characters, and every chunk but the last has exactly 1900. The empty string gives no
  chunk, so \<open>_send_limited\<close> sends no message for it, whatever the message cap.
\<close>

theorem chunk_text_partition:
  "\<exists>cs. chunk_text s 1900 = Inr cs \<and> concat cs = s
     \<and> (\<forall>c \<in> set cs. length c \<le> 1900)
     \<and> (\<forall>i. Suc i < length cs \<longrightarrow> length (cs ! i) = 1900)
     \<and> chunk_text ([] :: 'a list) 1900 = Inr []
     \<and> send_limited [] max_posts = Inr []"
proof -
  let ?m = "(length s + 1899) div 1900"
  let ?cs = "map (\<lambda>k. take 1900 (drop (k * 1900) s)) [0..<?m]"
  have eq: "chunk_text s 1900 = Inr ?cs" by (rule chunk_text_1900)
  have cover: "length s \<le> ?m * 1900"
    using ceil_div_covers [of 1900 "length s"] by simp
  have cat: "concat ?cs = s"
    using cover by (simp add: concat_slices)
  have bound: "\<forall>c \<in> set ?cs. length c \<le> 1900" by auto
  have full: "\<forall>i. Suc i < length ?cs \<longrightarrow> length (?cs ! i) = 1900"
  proof (intro allI impI)
    fix i assume "Suc i < length ?cs"
    then have lt: "Suc i < ?m" by simp
    then have "Suc i * 1900 < length s"
      using ceil_div_tight [of 1900 i "length s"] by simp
    moreover have "?cs ! i = take 1900 (drop (i * 1900) s)"
      using lt by simp
    ultimately show "length (?cs ! i) = 1900" by simp
  qed
  have e1: "chunk_text ([] :: 'a list) 1900 = Inr []"
    by (simp add: chunk_text_1900)
  have e2: "send_limited [] max_posts = Inr []"
    by (simp add: send_limited_def chunk_text_1900)
  from eq cat bound full e1 e2 show ?thesis by blast
qed

theorem chunk_text_partition_witness:
  "\<exists>cs. chunk_text (replicate 2000 (CHR ''a'')) 1900 = Inr cs \<and> length cs = 2
     \<and> concat cs = replicate 2000 (CHR ''a'')
     \<and> length (cs ! 0) = 1900 \<and> length (cs ! 1) \<le> 1900"
proof -
  let ?s = "replicate 2000 (CHR ''a'')"
  obtain cs where cs: "chunk_text ?s 1900 = Inr cs" "concat cs = ?s"
      "\<forall>c \<in> set cs. length c \<le> 1900"
      "\<forall>i. Suc i < length cs \<longrightarrow> length (cs ! i) = 1900"
    using chunk_text_partition [of ?s] by blast
  have len: "length cs = 2"
    using cs(1) by (auto simp: chunk_text_1900)
  have "length (cs ! 0) = 1900" using cs(4) len by simp
  moreover have "length (cs ! 1) \<le> 1900" using cs(3) len by simp
  ultimately show ?thesis using cs(1,2) len by blast
qed

lemma length_chunks_1900:
  "chunk_text xs 1900 = Inr cs \<Longrightarrow> length cs = (length xs + 1899) div 1900"
  by (auto simp: chunk_text_1900)

lemma merge_overflow_5:
  assumes "5 < length cs"
  shows "merge_overflow cs 5 = Inr (take 4 cs @ [cs ! 4 @ newline @ py_join newline (drop 5 cs)])"
proof -
  have "butlast (take 5 cs) = take 4 cs" using assms by (simp add: butlast_take)
  moreover have ne: "take 5 cs \<noteq> []" using assms by auto
  moreover have "last (take 5 cs) = cs ! 4"
  proof -
    have "last (take 5 cs) = take 5 cs ! (length (take 5 cs) - 1)"
      using ne by (rule last_conv_nth)
    also have "length (take 5 cs) = 5" using assms by simp
    also have "take 5 cs ! (5 - 1) = cs ! 4" by simp
    finally show ?thesis .
  qed
  ultimately show ?thesis using assms
    by (simp add: merge_overflow_def slice_to_def slice_from_def Let_def)
qed

lemma merge_overflow_le:
  "int (length cs) \<le> m \<Longrightarrow> merge_overflow cs m = Inr cs"
  by (simp add: merge_overflow_def)

lemma chunks_bounded_1900:
  "chunk_text xs 1900 = Inr cs \<Longrightarrow> c \<in> set cs \<Longrightarrow> length c \<le> 1900"
  by (auto simp: chunk_text_1900)

lemma chunk_text_1900_total: "\<exists>cs. chunk_text xs 1900 = Inr cs"
  by (simp add: chunk_text_1900)

lemma send_limited_5:
  assumes "chunk_text text 1900 = Inr cs"
  shows "send_limited text 5 =
     Inr (map code_block
           (if length cs \<le> 5 then cs
            else take 4 cs @ [cs ! 4 @ newline @ py_join newline (drop 5 cs)]))"
proof (cases "length cs \<le> 5")
  case True
  then have "merge_overflow cs 5 = Inr cs" by (simp add: merge_overflow_le)
  with True assms show ?thesis by (simp add: send_limited_def)
next
  case False
  then have gt: "5 < length cs" by simp
  then have ne: "cs \<noteq> []" by auto
  show ?thesis
    using False merge_overflow_5 [OF gt] assms ne by (simp add: send_limited_def)
qed

lemma drop_5_of_6:
  assumes "length cs = 6"
  shows "drop 5 cs = [cs ! 5]"
proof -
  have "5 < length cs" using assms by simp
  then have "cs ! 5 # drop (Suc 5) cs = drop 5 cs" by (rule Cons_nth_drop_Suc)
  moreover have "drop (Suc 5) cs = []" using assms by simp
  ultimately show ?thesis by simp
qed

text \<open>
  C2 (amended). \<open>_send_limited\<close> with the cap of 5 messages: the text is cut into chunks of
  at most 1900 characters; at most 5 chunks are sent unchanged; with more, the first four
  are sent unchanged and the fifth message is chunk 5 followed by a newline and the
  overflow chunks joined by newlines. A 5000-character text gives exactly 3 chunks and
  nothing is merged; a text of 9501 to 11400 characters (6 chunks unbounded) gives exactly
  5 messages, the fifth being chunk 5, a newline and chunk 6. Each message is the chunk
  wrapped in a code block.
\<close>

theorem send_limited_merges_overflow:
  "\<exists>cs. chunk_text text 1900 = Inr cs
     \<and> (\<forall>c \<in> set cs. length c \<le> 1900)
     \<and> send_limited text 5 =
         Inr (map code_block
               (if length cs \<le> 5 then cs
                else take 4 cs @ [cs ! 4 @ newline @ py_join newline (drop 5 cs)]))
     \<and> (\<forall>msgs. send_limited text 5 = Inr msgs \<longrightarrow> length msgs \<le> 5)
     \<and> (length text = 5000 \<longrightarrow>
           length cs = 3 \<and> send_limited text 5 = Inr (map code_block cs))
     \<and> (9500 < length text \<and> length text \<le> 11400 \<longrightarrow>
           length cs = 6 \<and>
           (\<exists>msgs. send_limited text 5 = Inr msgs \<and> length msgs = 5
              \<and> take 4 msgs = map code_block (take 4 cs)
              \<and> msgs ! 4 = code_block (cs ! 4 @ newline @ cs ! 5)))"
proof -
  obtain cs where eq: "chunk_text text 1900 = Inr cs"
    using chunk_text_1900_total by blast
  have len: "length cs = (length text + 1899) div 1900"
    using eq by (rule length_chunks_1900)
  have bound: "\<forall>c \<in> set cs. length c \<le> 1900"
    using eq chunks_bounded_1900 by blast
  have sent: "send_limited text 5 =
     Inr (map code_block
           (if length cs \<le> 5 then cs
            else take 4 cs @ [cs ! 4 @ newline @ py_join newline (drop 5 cs)]))"
    using eq by (rule send_limited_5)
  have cap: "\<forall>msgs. send_limited text 5 = Inr msgs \<longrightarrow> length msgs \<le> 5"
    unfolding sent by (cases "length cs \<le> 5") auto
  have ex1: "length text = 5000 \<longrightarrow>
       length cs = 3 \<and> send_limited text 5 = Inr (map code_block cs)"
  proof
    assume "length text = 5000"
    then have "length cs = 3" using len by simp
    then show "length cs = 3 \<and> send_limited text 5 = Inr (map code_block cs)"
      using sent by simp
  qed
  have ex2: "9500 < length text \<and> length text \<le> 11400 \<longrightarrow>
       length cs = 6 \<and>
       (\<exists>msgs. send_limited text 5 = Inr msgs \<and> length msgs = 5
          \<and> take 4 msgs = map code_block (take 4 cs)
          \<and> msgs ! 4 = code_block (cs ! 4 @ newline @ cs ! 5))"
  proof
    assume r: "9500 < length text \<and> length text \<le> 11400"
    then have "(length text + 1899) div 1900 = 6" by linarith
    then have l6: "length cs = 6" using len by simp
    then have j: "py_join newline (drop 5 cs) = cs ! 5"
      by (simp add: drop_5_of_6)
    let ?msgs = "map code_block (take 4 cs @ [cs ! 4 @ newline @ cs ! 5])"
    have s: "send_limited text 5 = Inr ?msgs"
      using sent l6 j by simp
    have a: "length ?msgs = 5" using l6 by simp
    have b: "take 4 ?msgs = map code_block (take 4 cs)"
      using l6 by (simp add: take_map)
    have c: "?msgs ! 4 = code_block (cs ! 4 @ newline @ cs ! 5)"
      using l6 by (simp add: nth_append)
    from s a b c l6 show "length cs = 6 \<and>
       (\<exists>msgs. send_limited text 5 = Inr msgs \<and> length msgs = 5
          \<and> take 4 msgs = map code_block (take 4 cs)
          \<and> msgs ! 4 = code_block (cs ! 4 @ newline @ cs ! 5))"
      by blast
  qed
  from eq bound sent cap ex1 ex2 show ?thesis by blast
qed

theorem send_limited_merges_overflow_witness:
  "(\<exists>msgs. send_limited (replicate 10000 (CHR ''x'')) 5 = Inr msgs \<and> length msgs = 5
     \<and> msgs ! 4 =
         code_block (replicate 1900 (CHR ''x'') @ newline @ replicate 500 (CHR ''x'')))
   \<and> (\<exists>cs. chunk_text (replicate 5000 (CHR ''x'')) 1900 = Inr cs \<and> length cs = 3
         \<and> send_limited (replicate 5000 (CHR ''x'')) 5 = Inr (map code_block cs))"
proof -
  let ?t = "replicate 10000 (CHR ''x'')"
  have r: "9500 < length ?t \<and> length ?t \<le> 11400" by simp
  obtain cs msgs where cs: "chunk_text ?t 1900 = Inr cs"
    and m: "send_limited ?t 5 = Inr msgs" "length msgs = 5"
      "msgs ! 4 = code_block (cs ! 4 @ newline @ cs ! 5)"
    using send_limited_merges_overflow [of ?t] r by blast
  have "cs = map (\<lambda>k. take 1900 (drop (k * 1900) ?t)) [0..<6]"
    using cs by (simp add: chunk_text_1900)
  then have "cs ! 4 = replicate 1900 (CHR ''x'')" "cs ! 5 = replicate 500 (CHR ''x'')"
    by simp_all
  with m have a: "\<exists>msgs. send_limited ?t 5 = Inr msgs \<and> length msgs = 5
     \<and> msgs ! 4 =
         code_block (replicate 1900 (CHR ''x'') @ newline @ replicate 500 (CHR ''x''))"
    by simp
  let ?u = "replicate 5000 (CHR ''x'')"
  have "length ?u = 5000" by simp
  then have b: "\<exists>cs. chunk_text ?u 1900 = Inr cs \<and> length cs = 3
         \<and> send_limited ?u 5 = Inr (map code_block cs)"
    using send_limited_merges_overflow [of ?u] by blast
  from a b show ?thesis by (rule conjI)
qed

text \<open>
  C2 as stated fails: a 5000-character response is cut into 3 chunks (1900, 1900 and
  1200 characters), not 5, and no chunk is merged.
\<close>

theorem send_limited_5000_counterexample:
  "send_limited (replicate 5000 (CHR ''x'')) 5 =
     Inr [code_block (replicate 1900 (CHR ''x'')), code_block (replicate 1900 (CHR ''x'')),
          code_block (replicate 1200 (CHR ''x''))]
   \<and> \<not> (\<exists>msgs. send_limited (replicate 5000 (CHR ''x'')) 5 = Inr msgs \<and> length msgs = 5)"
  by (simp add: send_limited_def chunk_text_1900 merge_overflow_def upt_rec)

section \<open>Properties of the conversation memory\<close>

lemma remember_all_snoc:
  "remember_all mem (calls @ [(u, r, c)]) = remember (remember_all mem calls) u r c"
  by (induction mem calls rule: remember_all.induct) auto

lemma drop_window_snoc:
  fixes ts :: "'a list"
  shows "(let h = drop (length ts - 10) ts @ [t]
          in if int (length h) - 10 > 0 then drop (nat (int (length h) - 10)) h else h)
         = drop (length (ts @ [t]) - 10) (ts @ [t])"
proof (cases "length ts < 10")
  case True
  then show ?thesis by (auto simp: Let_def)
next
  case False
  then have "Suc (length ts - 10) = length ts - 9" by arith
  with False show ?thesis by (auto simp: Let_def)
qed

lemma remember_same:
  "get_user_memory (remember mem u r c) u =
     (let h = get_user_memory mem u @
                [\<lparr>role = (if r \<in> set [''user'', ''assistant'', ''system''] then r else ''user''),
                  content = c\<rparr>]
      in if int (length h) - 10 > 0 then drop (nat (int (length h) - 10)) h else h)"
  by (simp add: remember_def get_user_memory_def MEMORY_TURNS_def Let_def)

lemma remember_other:
  "u' \<noteq> u \<Longrightarrow> get_user_memory (remember mem u r c) u' = get_user_memory mem u'"
  by (simp add: remember_def get_user_memory_def Let_def)

lemma remember_all_fifo:
  "get_user_memory (remember_all Map.empty calls) u =
     drop (length (requested_turns u calls) - 10) (requested_turns u calls)"
proof (induction calls rule: rev_induct)
  case Nil
  show ?case by (simp add: get_user_memory_def requested_turns_def)
next
  case (snoc x calls)
  obtain u' r c where x: "x = (u', r, c)" by (cases x) auto
  show ?case
  proof (cases "u' = u")
    case True
    have "requested_turns u (calls @ [x]) = requested_turns u calls @
        [\<lparr>role = (if r \<in> set [''user'', ''assistant'', ''system''] then r else ''user''),
          content = c\<rparr>]"
      using True x by (simp add: requested_turns_def)
    then show ?thesis
      using snoc True x drop_window_snoc [of "requested_turns u calls"]
      by (simp only: remember_all_snoc remember_same)
  next
    case False
    then have "requested_turns u (calls @ [x]) = requested_turns u calls"
      using x by (simp add: requested_turns_def)
    then show ?thesis
      using snoc False x by (simp add: remember_all_snoc remember_other)
  qed
qed

lemma requested_turns_alternating:
  "requested_turns u (map (\<lambda>i. (u, if even i then ''user'' else ''assistant'', c i)) [0..<n])
     = map (\<lambda>i. \<lparr>role = if even i then ''user'' else ''assistant'', content = c i\<rparr>) [0..<n]"
  by (induction n) (auto simp: requested_turns_def)

text \<open>
  C1. Starting from the empty store, after any sequence of \<open>_remember\<close> calls the list kept
  for any user has at most \<open>2 * MEMORY_TURNS = 10\<close> messages (and so has the list of the
  user of a call right after the call, whatever the store was), and it is exactly the last 10
  of the messages the calls for that user asked to store, in call order (the oldest are
  evicted first). After 12 calls with alternating user/assistant roles the list holds the
  messages of calls 3 to 12, in order.
\<close>

theorem remember_bounded_fifo:
  "length (get_user_memory (remember_all Map.empty calls) u) \<le> 2 * MEMORY_TURNS
   \<and> length (get_user_memory (remember mem u r x) u) \<le> 2 * MEMORY_TURNS
   \<and> 2 * MEMORY_TURNS = 10
   \<and> get_user_memory (remember_all Map.empty calls) u =
       drop (length (requested_turns u calls) - 10) (requested_turns u calls)
   \<and> get_user_memory
         (remember_all Map.empty
            (map (\<lambda>i. (u, if even i then ''user'' else ''assistant'', c i)) [0..<12])) u =
       map (\<lambda>i. \<lparr>role = if even i then ''user'' else ''assistant'', content = c i\<rparr>) [2..<12]"
proof -
  have fifo: "get_user_memory (remember_all Map.empty calls) u =
       drop (length (requested_turns u calls) - 10) (requested_turns u calls)"
    by (rule remember_all_fifo)
  have bound: "length (get_user_memory (remember_all Map.empty calls) u) \<le> 2 * MEMORY_TURNS"
    unfolding fifo by (simp add: MEMORY_TURNS_def)
  have twelve: "get_user_memory
         (remember_all Map.empty
            (map (\<lambda>i. (u, if even i then ''user'' else ''assistant'', c i)) [0..<12])) u =
       map (\<lambda>i. \<lparr>role = if even i then ''user'' else ''assistant'', content = c i\<rparr>) [2..<12]"
  proof -
    have "drop 2 [0..<12] = [2..<12::nat]" by code_simp
    then show ?thesis
      by (simp add: remember_all_fifo requested_turns_alternating drop_map
            del: upt_rec_numeral)
  qed
  have step: "length (get_user_memory (remember mem u r x) u) \<le> 2 * MEMORY_TURNS"
  proof -
    let ?h = "get_user_memory mem u"
    have "nat (int (length ?h) - 9) = length ?h - 9" by arith
    then show ?thesis by (simp add: remember_same MEMORY_TURNS_def Let_def)
  qed
  have ten: "2 * MEMORY_TURNS = 10" by (simp add: MEMORY_TURNS_def)
  from bound step ten fifo twelve show ?thesis by (intro conjI)
qed

theorem remember_bounded_fifo_witness:
  "map content
     (get_user_memory
        (remember_all Map.empty
           (map (\<lambda>i. (42, if even i then ''user'' else ''assistant'', replicate i (CHR ''a'')))
              [0..<12])) 42)
   = map (\<lambda>i. replicate i (CHR ''a'')) [2..<12]"
proof -
  have "get_user_memory
        (remember_all Map.empty
           (map (\<lambda>i. (42, if even i then ''user'' else ''assistant'', replicate i (CHR ''a'')))
              [0..<12])) 42
      = map (\<lambda>i. \<lparr>role = if even i then ''user'' else ''assistant'',
                      content = replicate i (CHR ''a'')\<rparr>) [2..<12]"
    using remember_bounded_fifo [of "[]" 42 _ _ _ "\<lambda>i. replicate i (CHR ''a'')"] by blast
  then show ?thesis by (simp add: comp_def del: upt_rec_numeral)
qed

section \<open>Properties of configuration validation\<close>

lemma length_append_if:
  "length (append_if b msg errors) = length errors + (if b then 1 else 0)"
  by (simp add: append_if_def)

text \<open>
  C6. \<open>validate_config\<close> is a total function of the settings (nothing in it can raise) and
  returns one message per violated constraint; at import the messages are printed under
  a header line and nothing else happens. The list is non-empty exactly when the
  token is empty, or the max-tokens setting is below -1 or equal to 0, or the TTL is
  negative, or the frame count is outside [1, 20], or the volume is outside [0, 1].
  The boundary values -1 (max tokens), 0 (TTL), 1 and 20 (frames), 0 and 1 (volume)
  give no error.
\<close>

theorem validate_config_errors:
  "length (validate_config cfg) =
       (if BOT_TOKEN cfg = [] then 1 else 0)
     + (if LMSTUDIO_MAX_TOKENS cfg < -1 \<or> LMSTUDIO_MAX_TOKENS cfg = 0 then 1 else 0)
     + (if MODEL_TTL_SECONDS cfg < 0 then 1 else 0)
     + (if MIN_VIDEO_FRAMES cfg < 1 \<or> MIN_VIDEO_FRAMES cfg > 20 then 1 else 0)
     + (if DEFAULT_VOLUME cfg < 0 \<or> DEFAULT_VOLUME cfg > 1 then 1 else 0)
   \<and> ((validate_config cfg \<noteq> []) =
        (BOT_TOKEN cfg = []
         \<or> LMSTUDIO_MAX_TOKENS cfg < -1 \<or> LMSTUDIO_MAX_TOKENS cfg = 0
         \<or> MODEL_TTL_SECONDS cfg < 0
         \<or> MIN_VIDEO_FRAMES cfg < 1 \<or> MIN_VIDEO_FRAMES cfg > 20
         \<or> DEFAULT_VOLUME cfg < 0 \<or> DEFAULT_VOLUME cfg > 1))
   \<and> (token \<noteq> [] \<and> (frames = 1 \<or> frames = 20) \<and> (volume = 0 \<or> volume = 1) \<longrightarrow>
        validate_config \<lparr>BOT_TOKEN = token, LMSTUDIO_MAX_TOKENS = -1, MODEL_TTL_SECONDS = 0,
                          MIN_VIDEO_FRAMES = frames, DEFAULT_VOLUME = volume\<rparr> = [])
   \<and> length (report_config_errors cfg) =
       (if validate_config cfg = [] then 0 else 1 + length (validate_config cfg))"
proof -
  have len: "length (validate_config cfg) =
       (if BOT_TOKEN cfg = [] then 1 else 0)
     + (if LMSTUDIO_MAX_TOKENS cfg < -1 \<or> LMSTUDIO_MAX_TOKENS cfg = 0 then 1 else 0)
     + (if MODEL_TTL_SECONDS cfg < 0 then 1 else 0)
     + (if MIN_VIDEO_FRAMES cfg < 1 \<or> MIN_VIDEO_FRAMES cfg > 20 then 1 else 0)
     + (if DEFAULT_VOLUME cfg < 0 \<or> DEFAULT_VOLUME cfg > 1 then 1 else 0)"
    unfolding validate_config_def Let_def by (simp only: length_append_if list.size)
  have "(validate_config cfg \<noteq> []) = (0 < length (validate_config cfg))" by simp
  also have "\<dots> =
        (BOT_TOKEN cfg = []
         \<or> LMSTUDIO_MAX_TOKENS cfg < -1 \<or> LMSTUDIO_MAX_TOKENS cfg = 0
         \<or> MODEL_TTL_SECONDS cfg < 0
         \<or> MIN_VIDEO_FRAMES cfg < 1 \<or> MIN_VIDEO_FRAMES cfg > 20
         \<or> DEFAULT_VOLUME cfg < 0 \<or> DEFAULT_VOLUME cfg > 1)"
    unfolding len by (simp split: if_splits)
  finally have iff: "(validate_config cfg \<noteq> []) =
        (BOT_TOKEN cfg = []
         \<or> LMSTUDIO_MAX_TOKENS cfg < -1 \<or> LMSTUDIO_MAX_TOKENS cfg = 0
         \<or> MODEL_TTL_SECONDS cfg < 0
         \<or> MIN_VIDEO_FRAMES cfg < 1 \<or> MIN_VIDEO_FRAMES cfg > 20
         \<or> DEFAULT_VOLUME cfg < 0 \<or> DEFAULT_VOLUME cfg > 1)" .
  have edge: "token \<noteq> [] \<and> (frames = 1 \<or> frames = 20) \<and> (volume = 0 \<or> volume = 1) \<longrightarrow>
        validate_config \<lparr>BOT_TOKEN = token, LMSTUDIO_MAX_TOKENS = -1, MODEL_TTL_SECONDS = 0,
                          MIN_VIDEO_FRAMES = frames, DEFAULT_VOLUME = volume\<rparr> = []"
    by (auto simp: validate_config_def append_if_def)
  have report: "length (report_config_errors cfg) =
       (if validate_config cfg = [] then 0 else 1 + length (validate_config cfg))"
    by (simp add: report_config_errors_def Let_def)
  from len iff edge report show ?thesis by (intro conjI)
qed

theorem validate_config_errors_witness:
  "validate_config \<lparr>BOT_TOKEN = ''secret'', LMSTUDIO_MAX_TOKENS = -1, MODEL_TTL_SECONDS = 0,
                     MIN_VIDEO_FRAMES = 20, DEFAULT_VOLUME = 1\<rparr> = []
   \<and> validate_config \<lparr>BOT_TOKEN = '''', LMSTUDIO_MAX_TOKENS = 0, MODEL_TTL_SECONDS = -1,
                       MIN_VIDEO_FRAMES = 21, DEFAULT_VOLUME = 3 / 2\<rparr> \<noteq> []"
proof -
  have a: "validate_config \<lparr>BOT_TOKEN = ''secret'', LMSTUDIO_MAX_TOKENS = -1,
        MODEL_TTL_SECONDS = 0, MIN_VIDEO_FRAMES = 20, DEFAULT_VOLUME = 1\<rparr> = []"
    using validate_config_errors [of _ "''secret''" 20 1] by simp
  have b: "validate_config \<lparr>BOT_TOKEN = '''', LMSTUDIO_MAX_TOKENS = 0, MODEL_TTL_SECONDS = -1,
                       MIN_VIDEO_FRAMES = 21, DEFAULT_VOLUME = 3 / 2\<rparr> \<noteq> []"
    using validate_config_errors [of "\<lparr>BOT_TOKEN = '''', LMSTUDIO_MAX_TOKENS = 0,
        MODEL_TTL_SECONDS = -1, MIN_VIDEO_FRAMES = 21, DEFAULT_VOLUME = 3 / 2\<rparr>"] by simp
  from a b show ?thesis by simp
qed

section \<open>Properties of the frame sampler\<close>


lemma slice_to_all: "int (length xs) \<le> m \<Longrightarrow> slice_to xs m = xs"
  by (simp add: slice_to_def)

lemma slice_to_Nil: "slice_to [] m = []"
  by (simp add: slice_to_def)

lemma length_upto_le: "0 < n \<Longrightarrow> int (length [a..a + n - 1]) = n"
  by simp


lemma sample_timestamps_long:
  assumes "5 < duration" and "max_frames \<noteq> -1"
  shows "sample_timestamps duration max_frames =
     Inr (map (\<lambda>i. of_int i * (duration / of_int (max_frames + 1))) [1..max_frames])"
proof -
  let ?ts = "map (\<lambda>i. of_int i * (duration / of_int (max_frames + 1))) [1..max_frames]"
  have "slice_to ?ts max_frames = ?ts"
  proof (cases "0 < max_frames")
    case True
    then have "int (length ?ts) \<le> max_frames" by simp
    then show ?thesis by (rule slice_to_all)
  next
    case False
    then have "[1..max_frames] = []" by simp
    then show ?thesis by (simp add: slice_to_Nil)
  qed
  moreover have "max_frames + 1 \<noteq> 0" using assms(2) by simp
  ultimately show ?thesis using assms(1) by (simp add: sample_timestamps_def Let_def)
qed

lemma upto_1_5: "[1..5::int] = [1, 2, 3, 4, 5]" by code_simp



lemma probe_duration_None:
  "probe_duration p = None \<longleftrightarrow>
     (\<exists>returncode out. p = ProbeExit returncode out \<and> returncode \<noteq> 0)
     \<or> (\<exists>d. p = ProbeExit 0 (Output False d))"
  by (auto simp: probe_duration_def split: probe_result.splits probe_output.splits
        duration_field.splits)

lemma probe_duration_nonpositive:
  "(\<exists>x. probe_duration p = Some x \<and> x \<le> 0) \<longleftrightarrow>
     p = ProbeExit 0 (Output True DurationMissing)
     \<or> (\<exists>x. p = ProbeExit 0 (Output True (Duration x)) \<and> x \<le> 0)"
  by (auto simp: probe_duration_def split: probe_result.splits probe_output.splits
        duration_field.splits)

lemma returned_early_iff:
  "extract_video_frames_from_file p max_frames = ReturnedEarly \<longleftrightarrow>
     probe_duration p = None \<or> (\<exists>x. probe_duration p = Some x \<and> x \<le> 0)"
  by (auto simp: extract_video_frames_from_file_def split: option.splits sum.splits)

lemma sample_timestamps_total:
  "0 < max_frames \<Longrightarrow> \<exists>ts. sample_timestamps duration max_frames = Inr ts"
  by (simp add: sample_timestamps_def Let_def)

lemma not_failed:
  "0 < max_frames \<Longrightarrow> extract_video_frames_from_file p max_frames \<noteq> Failed e"
proof
  assume n: "0 < max_frames" and f: "extract_video_frames_from_file p max_frames = Failed e"
  then obtain d where "sample_timestamps d max_frames = Inl e"
    by (auto simp: extract_video_frames_from_file_def split: option.splits sum.splits if_splits)
  moreover obtain ts where "sample_timestamps d max_frames = Inr ts"
    using sample_timestamps_total [OF n] by blast
  ultimately show False by simp
qed

lemma fallback_60:
  assumes "0 < max_frames" and "probe_duration p = Some 60"
  shows "extract_video_frames_from_file p max_frames =
     Extracting (map (\<lambda>i. of_int i * (60 / of_int (max_frames + 1))) [1..max_frames])"
  using assms sample_timestamps_long [of 60 max_frames]
  by (simp add: extract_video_frames_from_file_def)

text \<open>
  C9. When probing the file raises (running the probe, parsing its output, or converting
  the duration field), the sampler does not return early: it takes the duration to be
  exactly 60 and goes on to extract at the \<open>N\<close> timestamps \<open>i * 60 / (N + 1)\<close>,
  \<open>i = 1..N\<close> (for a positive frame count \<open>N\<close>). It returns the empty list before
  extraction only on a nonzero probe exit status, when no video stream is present, or
  when the parsed duration (0 when the field is absent) is at most 0.
\<close>

theorem probe_failure_assumes_60:
  "0 < max_frames \<longrightarrow>
     (p = ProbeRunRaises \<or> p = ProbeExit 0 OutputUnparseable
        \<or> p = ProbeExit 0 (Output True DurationInvalid) \<longrightarrow>
        probe_duration p = Some 60
        \<and> extract_video_frames_from_file p max_frames =
            Extracting (map (\<lambda>i. of_int i * (60 / of_int (max_frames + 1))) [1..max_frames])
        \<and> (map (\<lambda>i. of_int i * (60 / of_int (max_frames + 1))) [1..max_frames]
              :: py_float list) \<noteq> []
        \<and> extract_video_frames_from_file p max_frames \<noteq> ReturnedEarly)
     \<and> (extract_video_frames_from_file p max_frames = ReturnedEarly \<longleftrightarrow>
          (\<exists>returncode out. p = ProbeExit returncode out \<and> returncode \<noteq> 0)
          \<or> (\<exists>d. p = ProbeExit 0 (Output False d))
          \<or> p = ProbeExit 0 (Output True DurationMissing)
          \<or> (\<exists>x. p = ProbeExit 0 (Output True (Duration x)) \<and> x \<le> 0))
     \<and> (\<forall>e. extract_video_frames_from_file p max_frames \<noteq> Failed e)"
proof
  assume n: "0 < max_frames"
  have a: "p = ProbeRunRaises \<or> p = ProbeExit 0 OutputUnparseable
        \<or> p = ProbeExit 0 (Output True DurationInvalid) \<longrightarrow>
        probe_duration p = Some 60
        \<and> extract_video_frames_from_file p max_frames =
            Extracting (map (\<lambda>i. of_int i * (60 / of_int (max_frames + 1))) [1..max_frames])
        \<and> (map (\<lambda>i. of_int i * (60 / of_int (max_frames + 1))) [1..max_frames]
              :: py_float list) \<noteq> []
        \<and> extract_video_frames_from_file p max_frames \<noteq> ReturnedEarly"
  proof
    assume "p = ProbeRunRaises \<or> p = ProbeExit 0 OutputUnparseable
        \<or> p = ProbeExit 0 (Output True DurationInvalid)"
    then have d: "probe_duration p = Some 60" by (auto simp: probe_duration_def)
    have e: "extract_video_frames_from_file p max_frames =
            Extracting (map (\<lambda>i. of_int i * (60 / of_int (max_frames + 1))) [1..max_frames])"
      using n d by (rule fallback_60)
    have "[1..max_frames] \<noteq> []" using n by simp
    with d e show "probe_duration p = Some 60
        \<and> extract_video_frames_from_file p max_frames =
            Extracting (map (\<lambda>i. of_int i * (60 / of_int (max_frames + 1))) [1..max_frames])
        \<and> (map (\<lambda>i. of_int i * (60 / of_int (max_frames + 1))) [1..max_frames]
              :: py_float list) \<noteq> []
        \<and> extract_video_frames_from_file p max_frames \<noteq> ReturnedEarly"
      by simp
  qed
  have b: "extract_video_frames_from_file p max_frames = ReturnedEarly \<longleftrightarrow>
          (\<exists>returncode out. p = ProbeExit returncode out \<and> returncode \<noteq> 0)
          \<or> (\<exists>d. p = ProbeExit 0 (Output False d))
          \<or> p = ProbeExit 0 (Output True DurationMissing)
          \<or> (\<exists>x. p = ProbeExit 0 (Output True (Duration x)) \<and> x \<le> 0)"
    unfolding returned_early_iff probe_duration_None probe_duration_nonpositive by blast
  have c: "\<forall>e. extract_video_frames_from_file p max_frames \<noteq> Failed e"
    using n not_failed by blast
  from a b c show "(p = ProbeRunRaises \<or> p = ProbeExit 0 OutputUnparseable
        \<or> p = ProbeExit 0 (Output True DurationInvalid) \<longrightarrow>
        probe_duration p = Some 60
        \<and> extract_video_frames_from_file p max_frames =
            Extracting (map (\<lambda>i. of_int i * (60 / of_int (max_frames + 1))) [1..max_frames])
        \<and> (map (\<lambda>i. of_int i * (60 / of_int (max_frames + 1))) [1..max_frames]
              :: py_float list) \<noteq> []
        \<and> extract_video_frames_from_file p max_frames \<noteq> ReturnedEarly)
     \<and> (extract_video_frames_from_file p max_frames = ReturnedEarly \<longleftrightarrow>
          (\<exists>returncode out. p = ProbeExit returncode out \<and> returncode \<noteq> 0)
          \<or> (\<exists>d. p = ProbeExit 0 (Output False d))
          \<or> p = ProbeExit 0 (Output True DurationMissing)
          \<or> (\<exists>x. p = ProbeExit 0 (Output True (Duration x)) \<and> x \<le> 0))
     \<and> (\<forall>e. extract_video_frames_from_file p max_frames \<noteq> Failed e)"
    by blast
qed

theorem probe_failure_assumes_60_witness:
  "extract_video_frames_from_file (ProbeExit 0 OutputUnparseable) 5 =
     Extracting [10, 20, 30, 40, 50]
   \<and> extract_video_frames_from_file (ProbeExit 1 OutputUnparseable) 5 = ReturnedEarly"
proof -
  have "extract_video_frames_from_file (ProbeExit 0 OutputUnparseable) 5 =
      Extracting (map (\<lambda>i. of_int i * (60 / of_int (5 + 1))) [1..5])"
    using probe_failure_assumes_60 [of 5 "ProbeExit 0 OutputUnparseable"] by simp
  moreover have "extract_video_frames_from_file (ProbeExit 1 OutputUnparseable) 5 = ReturnedEarly"
    using probe_failure_assumes_60 [of 5 "ProbeExit 1 OutputUnparseable"] by simp
  ultimately show ?thesis by (simp add: upto_1_5)
qed

section \<open>Properties of the voice retry loop\<close>

lemma upt_1_6: "[1..<5 + 1] = [1, 2, 3, 4, 5::nat]"
  by code_simp

lemma join_attempts_all_4006:
  assumes "attempt_voice_connection env 1 = Error4006"
    and "attempt_voice_connection env 2 = Error4006"
    and "attempt_voice_connection env 3 = Error4006"
    and "attempt_voice_connection env 4 = Error4006"
    and "attempt_voice_connection env 5 = Error4006"
  shows "join_retry_loop env =
     ([Attempt 1, ForceCleanup, RetryDelay 3,
       Attempt 2, ForceCleanup, DeepCleanup, RetryDelay 6,
       Attempt 3, ForceCleanup, DeepCleanup, Sleep 5, RetryDelay 9,
       Attempt 4, ForceCleanup, DeepCleanup, Sleep 5, RetryDelay 12,
       Attempt 5, ForceCleanup, DeepCleanup, Sleep 5,
       ReportFailure], False)"
  using assms unfolding join_retry_loop_def Let_def upt_1_6
  by (simp add: handle_result_def retry_wait_def)

text \<open>
  C8. When every one of the connection attempts returns the session-invalid (4006)
  result, the retry loop makes exactly the attempts 1 to 5, then reports failure and
  returns False; the retry delays it announces and sleeps between attempts are
  \<open>attempt * 3\<close>, that is 3, 6, 9 and 12 seconds, a non-decreasing sequence.
\<close>

theorem join_all_4006_five_attempts:
  "(\<forall>attempt \<in> {1..5}. attempt_voice_connection env attempt = Error4006) \<longrightarrow>
     snd (join_retry_loop env) = False
     \<and> last (fst (join_retry_loop env)) = ReportFailure
     \<and> attempts_made (fst (join_retry_loop env)) = [1, 2, 3, 4, 5]
     \<and> retry_delays (fst (join_retry_loop env)) = map (\<lambda>attempt. attempt * 3) [1, 2, 3, 4]
     \<and> retry_delays (fst (join_retry_loop env)) = [3, 6, 9, 12]
     \<and> sorted (retry_delays (fst (join_retry_loop env)))"
proof
  assume a: "\<forall>attempt \<in> {1..5}. attempt_voice_connection env attempt = Error4006"
  have "join_retry_loop env =
     ([Attempt 1, ForceCleanup, RetryDelay 3,
       Attempt 2, ForceCleanup, DeepCleanup, RetryDelay 6,
       Attempt 3, ForceCleanup, DeepCleanup, Sleep 5, RetryDelay 9,
       Attempt 4, ForceCleanup, DeepCleanup, Sleep 5, RetryDelay 12,
       Attempt 5, ForceCleanup, DeepCleanup, Sleep 5,
       ReportFailure], False)"
    using a by (intro join_attempts_all_4006) simp_all
  then show "snd (join_retry_loop env) = False
     \<and> last (fst (join_retry_loop env)) = ReportFailure
     \<and> attempts_made (fst (join_retry_loop env)) = [1, 2, 3, 4, 5]
     \<and> retry_delays (fst (join_retry_loop env)) = map (\<lambda>attempt. attempt * 3) [1, 2, 3, 4]
     \<and> retry_delays (fst (join_retry_loop env)) = [3, 6, 9, 12]
     \<and> sorted (retry_delays (fst (join_retry_loop env)))"
    by simp
qed

lemma session_invalid_is_4006:
  "classify_client_exception ''Voice session no longer valid (4006)'' = Error4006"
  by (simp add: classify_client_exception_def py_lower_def lower_char_def)

theorem join_all_4006_five_attempts_witness:
  "attempts_made (fst (join_retry_loop
      \<lparr>gateway_healthy = True, permissions_valid = True,
       connect = (\<lambda>attempt. ClientException ''Voice session no longer valid (4006)'')\<rparr>))
     = [1, 2, 3, 4, 5]
   \<and> retry_delays (fst (join_retry_loop
      \<lparr>gateway_healthy = True, permissions_valid = True,
       connect = (\<lambda>attempt. ClientException ''Voice session no longer valid (4006)'')\<rparr>))
     = [3, 6, 9, 12]"
proof -
  let ?env = "\<lparr>gateway_healthy = True, permissions_valid = True,
       connect = (\<lambda>attempt. ClientException ''Voice session no longer valid (4006)'')\<rparr>"
  have "\<forall>attempt \<in> {1..5}. attempt_voice_connection ?env attempt = Error4006"
    by (simp add: attempt_voice_connection_def session_invalid_is_4006)
  with join_all_4006_five_attempts [of ?env] show ?thesis by blast
qed

section \<open>Properties of the query sanitizer\<close>

lemma py_strip_stripped:
  assumes "q = [] \<or> (\<not> is_space (hd q) \<and> \<not> is_space (last q))"
  shows "py_strip q = q"
proof (cases "q = []")
  case True
  then show ?thesis by (simp add: py_strip_def)
next
  case False
  with assms have h: "\<not> is_space (hd q)" and l: "\<not> is_space (last q)" by auto
  have "dropWhile is_space q = q" using h False by (cases q) auto
  moreover have "dropWhile is_space (rev q) = rev q"
    using l False by (cases "rev q") (auto simp: last_rev hd_rev)
  ultimately show ?thesis by (simp add: py_strip_def)
qed

lemma replace_disallowed_id:
  "list_all allowed_char q \<Longrightarrow> map (\<lambda>c. if allowed_char c then c else CHR '' '') q = q"
  by (induction q) auto

lemma collapse_single_spaced:
  "single_spaced q \<Longrightarrow> collapse_whitespace q = q"
proof (induction q rule: single_spaced.induct)
  case 1
  show ?case by simp
next
  case (2 c)
  then show ?case by auto
next
  case (3 c d cs)
  then have ih: "collapse_whitespace (d # cs) = d # cs" by simp
  show ?case
  proof (cases "is_space c")
    case True
    with 3 have "c = CHR '' ''" and "\<not> is_space d" by auto
    with True ih show ?thesis by simp
  next
    case False
    with ih show ?thesis by simp
  qed
qed

lemma sanitize_fixed:
  assumes "already_sanitized q"
  shows "sanitize_query q = q"
proof -
  from assms have len: "length q \<le> 500" and ok: "list_all allowed_char q"
    and ss: "single_spaced q"
    and ends: "q = [] \<or> (\<not> is_space (hd q) \<and> \<not> is_space (last q))"
    by (auto simp: already_sanitized_def whitespace_collapsed_def)
  have s: "py_strip q = q" using ends by (rule py_strip_stripped)
  show ?thesis
    using len by (simp add: sanitize_query_def Let_def s replace_disallowed_id [OF ok]
        collapse_single_spaced [OF ss])
qed

lemma single_spaced_tl: "single_spaced (c # cs) \<Longrightarrow> single_spaced cs"
  by (cases cs) auto

lemma single_spaced_dropWhile: "single_spaced s \<Longrightarrow> single_spaced (dropWhile P s)"
  by (induction s) (auto dest: single_spaced_tl)

lemma single_spaced_prefix: "single_spaced (xs @ ys) \<Longrightarrow> single_spaced xs"
proof (induction xs rule: single_spaced.induct)
  case 1
  show ?case by simp
next
  case (2 c)
  then show ?case by (cases ys) auto
next
  case (3 c d cs)
  then show ?case by auto
qed

lemma strip_split:
  "dropWhile is_space s =
     py_strip s @ rev (takeWhile is_space (rev (dropWhile is_space s)))"
  unfolding py_strip_def by (metis rev_append rev_rev_ident takeWhile_dropWhile_id)

lemma strip_decompose:
  "\<exists>pre post. s = pre @ py_strip s @ post"
proof -
  have "s = takeWhile is_space s @ dropWhile is_space s" by simp
  then have "s = takeWhile is_space s @ py_strip s
       @ rev (takeWhile is_space (rev (dropWhile is_space s)))"
    using strip_split [of s] by simp
  then show ?thesis by blast
qed

lemma single_spaced_strip: "single_spaced s \<Longrightarrow> single_spaced (py_strip s)"
proof -
  assume a: "single_spaced s"
  have "single_spaced (dropWhile is_space s)" using a by (rule single_spaced_dropWhile)
  then have "single_spaced
      (py_strip s @ rev (takeWhile is_space (rev (dropWhile is_space s))))"
    using strip_split [of s] by simp
  then show ?thesis by (rule single_spaced_prefix)
qed

lemma strip_ends:
  "py_strip s = [] \<or> (\<not> is_space (hd (py_strip s)) \<and> \<not> is_space (last (py_strip s)))"
proof (cases "py_strip s = []")
  case True
  then show ?thesis by simp
next
  case False
  let ?t = "dropWhile is_space s"
  let ?u = "dropWhile is_space (rev ?t)"
  have ps: "py_strip s = rev ?u" by (simp add: py_strip_def)
  have u: "?u \<noteq> []" using False unfolding ps by (metis rev.simps(1))
  have "\<not> is_space (hd ?u)" using u by (rule hd_dropWhile)
  then have l: "\<not> is_space (last (py_strip s))"
    unfolding ps by (simp add: last_rev)
  have t: "?t \<noteq> []" using u by (metis dropWhile.simps(1) rev.simps(1))
  have "hd ?t = hd (py_strip s)"
    using False strip_split [of s] by (metis hd_append2)
  moreover have "\<not> is_space (hd ?t)" using t by (rule hd_dropWhile)
  ultimately show ?thesis using l by simp
qed

lemma list_all_strip: "list_all P s \<Longrightarrow> list_all P (py_strip s)"
proof -
  assume a: "list_all P s"
  obtain pre post where "s = pre @ py_strip s @ post" using strip_decompose by blast
  with a show ?thesis by (metis list_all_append)
qed

lemma is_space_blank: "is_space (CHR '' '')"
  by (simp add: is_space_def)

lemma allowed_blank: "allowed_char (CHR '' '')"
  by (simp add: allowed_char_def is_space_blank)

lemma list_all_collapse:
  "list_all allowed_char s \<Longrightarrow> list_all allowed_char (collapse_whitespace s)"
proof (induction s rule: collapse_whitespace.induct)
  case 1
  show ?case by simp
next
  case (2 c cs)
  show ?case
  proof (cases "is_space c")
    case True
    have "list_all allowed_char (dropWhile is_space cs)"
      using 2(3) by (metis list.pred_inject(2) list_all_append takeWhile_dropWhile_id)
    with True 2 show ?thesis by (simp add: allowed_blank)
  next
    case False
    with 2 show ?thesis by simp
  qed
qed

lemma hd_collapse_not_space:
  "s \<noteq> [] \<Longrightarrow> \<not> is_space (hd s) \<Longrightarrow> \<not> is_space (hd (collapse_whitespace s))"
  by (cases s) auto

lemma collapse_eq_Nil: "collapse_whitespace s = [] \<longleftrightarrow> s = []"
  by (cases s) auto

lemma single_spaced_Cons:
  "single_spaced (c # s) \<longleftrightarrow>
     is_space c = (c = CHR '' '') \<and> (s = [] \<or> \<not> (is_space c \<and> is_space (hd s)))
     \<and> single_spaced s"
  by (cases s) auto

lemma single_spaced_collapse: "single_spaced (collapse_whitespace s)"
proof (induction s rule: collapse_whitespace.induct)
  case 1
  show ?case by simp
next
  case (2 c cs)
  show ?case
  proof (cases "is_space c")
    case True
    let ?r = "dropWhile is_space cs"
    have ih: "single_spaced (collapse_whitespace ?r)" using 2(1) True by simp
    have "collapse_whitespace ?r = [] \<or> \<not> is_space (hd (collapse_whitespace ?r))"
    proof (cases "?r = []")
      case True
      then have "collapse_whitespace ?r = []" by (simp only: collapse_whitespace.simps)
      then show ?thesis by blast
    next
      case False
      then have "\<not> is_space (hd ?r)" by (rule hd_dropWhile)
      with False have "\<not> is_space (hd (collapse_whitespace ?r))"
        by (rule hd_collapse_not_space)
      then show ?thesis by blast
    qed
    moreover have "collapse_whitespace (c # cs) = CHR '' '' # collapse_whitespace ?r"
      using True by simp
    ultimately show ?thesis
      using ih by (simp only: single_spaced_Cons is_space_blank) simp
  next
    case False
    have ih: "single_spaced (collapse_whitespace cs)" using 2(2) False by simp
    with False is_space_blank show ?thesis by (auto simp: single_spaced_Cons)
  qed
qed

lemma list_all_replace_disallowed:
  "list_all allowed_char (map (\<lambda>c. if allowed_char c then c else CHR '' '') xs)"
  by (induction xs) (auto simp: allowed_blank)

lemma sanitize_output:
  "list_all allowed_char (sanitize_query q) \<and> whitespace_collapsed (sanitize_query q)"
proof -
  let ?a = "py_strip q"
  let ?b = "if length ?a > 500 then take 500 ?a @ ''...'' else ?a"
  let ?c = "map (\<lambda>c. if allowed_char c then c else CHR '' '') ?b"
  have out: "sanitize_query q = py_strip (collapse_whitespace ?c)"
    by (simp add: sanitize_query_def Let_def)
  have "list_all allowed_char ?c"
    by (rule list_all_replace_disallowed)
  then have "list_all allowed_char (collapse_whitespace ?c)" by (rule list_all_collapse)
  then have 1: "list_all allowed_char (sanitize_query q)"
    unfolding out by (rule list_all_strip)
  have "single_spaced (collapse_whitespace ?c)" by (rule single_spaced_collapse)
  then have "single_spaced (sanitize_query q)"
    unfolding out by (rule single_spaced_strip)
  then have 2: "whitespace_collapsed (sanitize_query q)"
    unfolding whitespace_collapsed_def out using strip_ends by blast
  from 1 2 show ?thesis by simp
qed

text \<open>
  C5. The query sanitizer (strip, cut after 500 characters with the marker, replace the
  characters outside the allow-list, collapse whitespace, strip) returns every already
  sanitized query unchanged. The already sanitized queries are exactly the results of
  the sanitizer that have at most 500 characters, so sanitizing such a result again
  gives the identical string.
\<close>

theorem sanitize_query_idempotent:
  "(already_sanitized q \<longrightarrow> sanitize_query q = q)
   \<and> (length (sanitize_query q) \<le> 500 \<longrightarrow>
        already_sanitized (sanitize_query q)
        \<and> sanitize_query (sanitize_query q) = sanitize_query q)"
proof -
  have a: "already_sanitized q \<longrightarrow> sanitize_query q = q"
    using sanitize_fixed by blast
  have b: "length (sanitize_query q) \<le> 500 \<longrightarrow>
        already_sanitized (sanitize_query q)
        \<and> sanitize_query (sanitize_query q) = sanitize_query q"
  proof
    assume "length (sanitize_query q) \<le> 500"
    then have s: "already_sanitized (sanitize_query q)"
      using sanitize_output [of q] by (simp add: already_sanitized_def)
    then have "sanitize_query (sanitize_query q) = sanitize_query q" by (rule sanitize_fixed)
    with s show "already_sanitized (sanitize_query q)
        \<and> sanitize_query (sanitize_query q) = sanitize_query q" by simp
  qed
  from a b show ?thesis by simp
qed

theorem sanitize_query_idempotent_witness:
  "sanitize_query ''python asyncio: what is new?'' = ''python asyncio: what is new?''
   \<and> sanitize_query (sanitize_query ''  hello,   world!! <b> '')
       = sanitize_query ''  hello,   world!! <b> ''"
proof -
  have "already_sanitized ''python asyncio: what is new?''"
    by (simp add: already_sanitized_def whitespace_collapsed_def allowed_char_def
          is_space_def is_word_char_def)
  then have a: "sanitize_query ''python asyncio: what is new?'' = ''python asyncio: what is new?''"
    using sanitize_query_idempotent [of "''python asyncio: what is new?''"] by blast
  have "sanitize_query ''  hello,   world!! <b> '' = ''hello, world!! b''"
    by (simp add: sanitize_query_def py_strip_def allowed_char_def is_space_def
          is_word_char_def)
  then have "length (sanitize_query ''  hello,   world!! <b> '') \<le> 500" by simp
  then have b: "sanitize_query (sanitize_query ''  hello,   world!! <b> '')
       = sanitize_query ''  hello,   world!! <b> ''"
    using sanitize_query_idempotent [of "''  hello,   world!! <b> ''"] by blast
  from a b show ?thesis by simp
qed

section \<open>Properties of the web search helper\<close>

lemma ddgs_method_calls:
  "ddgs_method env q n = (calls, r) \<Longrightarrow> SimplifiedCall s \<notin> set calls"
  by (auto simp: ddgs_method_def Let_def split: if_splits prod.splits)

lemma legacy_method_calls:
  "legacy_method env q n = (calls, r) \<Longrightarrow> SimplifiedCall s \<notin> set calls"
  by (auto simp: legacy_method_def split: option.splits legacy_outcome.splits if_splits)

lemma simplified_method_calls:
  "simplified_method env q n = (calls, r) \<Longrightarrow> SimplifiedCall s \<in> set calls \<Longrightarrow>
     s = simplified_query q"
  by (auto simp: simplified_method_def Let_def split: if_splits prod.splits)

lemma ddg_search_total:
  "\<exists>calls results. ddg_search env query n = Inr (calls, results)"
  by (simp add: ddg_search_def Let_def
      split: prod.split option.split sum.split search_exception.split)

lemma ddg_search_blank:
  "py_strip query = [] \<Longrightarrow> ddg_search env query n = Inr ([], [])"
  by (simp add: ddg_search_def)

lemma ddg_search_simplified_only_long:
  assumes "ddg_search env query n = Inr (calls, results)"
    and "SimplifiedCall s \<in> set calls"
  shows "100 < length (sanitize_query query) \<and> s = simplified_query (sanitize_query query)"
proof -
  let ?q = "sanitize_query query"
  obtain c1 r1 where m1: "ddgs_method env ?q n = (c1, r1)" by (cases "ddgs_method env ?q n")
  obtain c2 r2 where m2: "legacy_method env ?q n = (c2, r2)" by (cases "legacy_method env ?q n")
  obtain c3 r3 where m3: "simplified_method env ?q n = (c3, r3)"
    by (cases "simplified_method env ?q n")
  have n1: "SimplifiedCall s \<notin> set c1" using m1 by (rule ddgs_method_calls)
  have n2: "SimplifiedCall s \<notin> set c2" using m2 by (rule legacy_method_calls)
  have "calls = [] \<or> calls = c1 \<or> calls = c1 @ c2
        \<or> (100 < length ?q \<and> calls = c1 @ c2 @ c3)"
    using assms(1) m1 m2 m3
    by (auto simp: ddg_search_def Let_def
        split: if_splits option.splits sum.splits search_exception.splits)
  with assms(2) n1 n2 have "100 < length ?q \<and> SimplifiedCall s \<in> set c3" by auto
  with m3 show ?thesis using simplified_method_calls by blast
qed

lemma py_strip_Nil: "py_strip [] = []"
  by (simp add: py_strip_def)

lemma sanitize_blank: "py_strip query = [] \<Longrightarrow> sanitize_query query = []"
  by (simp add: sanitize_query_def py_strip_Nil)

lemma run_text_call_nothing:
  "yields_nothing outcome \<Longrightarrow> fst (run_text_call results outcome n) = results"
  by (cases outcome) (simp add: run_text_call_def yields_nothing_def)

lemma ddgs_method_nothing:
  assumes "total_failure env" and "ddgs_method env q n = (calls, Inr rs)"
  shows "rs = []"
proof -
  have a: "fst (run_text_call [] (ddgs_text env q n) n) = []"
    using assms(1) by (simp add: total_failure_def run_text_call_nothing)
  have b: "fst (run_text_call [] (ddgs_alt_text env q n) n) = []"
    using assms(1) by (simp add: total_failure_def run_text_call_nothing)
  show ?thesis
    using assms(2) a b
    by (auto simp: ddgs_method_def Let_def split: if_splits prod.splits)
qed

lemma legacy_method_nothing:
  assumes "total_failure env"
  shows "snd (legacy_method env q n) = None"
proof (cases "ddg env")
  case None
  then show ?thesis by (simp add: legacy_method_def)
next
  case (Some f)
  with assms have "returns_nothing (f q n)" by (simp add: total_failure_def)
  with Some show ?thesis
    by (cases "f q n") (simp_all add: legacy_method_def returns_nothing_def)
qed

lemma simplified_method_nothing:
  assumes "total_failure env" and "simplified_method env q n = (calls, Inr rs)"
  shows "rs = []"
proof -
  have "fst (run_text_call [] (ddgs_text_retry env (simplified_query q) n) n) = []"
    using assms(1) by (simp add: total_failure_def run_text_call_nothing)
  then show ?thesis
    using assms(2)
    by (auto simp: simplified_method_def Let_def split: if_splits prod.splits)
qed

lemma ddg_search_total_failure:
  assumes "total_failure env"
  shows "\<exists>calls. ddg_search env query n = Inr (calls, [])"
proof -
  let ?q = "sanitize_query query"
  obtain c1 r1 where m1: "ddgs_method env ?q n = (c1, r1)" by (cases "ddgs_method env ?q n")
  obtain c2 r2 where m2: "legacy_method env ?q n = (c2, r2)" by (cases "legacy_method env ?q n")
  obtain c3 r3 where m3: "simplified_method env ?q n = (c3, r3)"
    by (cases "simplified_method env ?q n")
  have f1: "r1 = Inr rs \<Longrightarrow> rs = []" for rs
    using assms m1 ddgs_method_nothing by blast
  have f2: "r2 = None" using legacy_method_nothing [OF assms, of ?q n] m2 by simp
  have f3: "r3 = Inr rs \<Longrightarrow> rs = []" for rs
    using assms m3 simplified_method_nothing by blast
  show ?thesis
    using m1 m2 m3 f1 f2 f3
    by (auto simp: ddg_search_def Let_def
        split: option.splits sum.splits search_exception.splits)
qed

lemma ddg_search_every_call_raises:
  assumes "every_call_raises env" and "sanitize_query query \<noteq> []"
  shows "ddg_search env query n =
     Inr ([PrimaryCall (sanitize_query query), AlternateCall (sanitize_query query),
           LegacyCall (sanitize_query query)]
          @ (if 100 < length (sanitize_query query)
             then [SimplifiedCall (simplified_query (sanitize_query query))] else []), [])"
proof -
  let ?q = "sanitize_query query"
  from assms(1) obtain f where imp: "ddgs_importable env"
    and t: "\<And>q n. ddgs_text env q n = Yields [] True"
    and a: "\<And>q n. ddgs_alt_text env q n = Yields [] True"
    and r: "\<And>q n. ddgs_text_retry env q n = Yields [] True"
    and l: "ddg env = Some f" "\<And>q n. f q n = LegacyRaises"
    by (auto simp: every_call_raises_def)
  have ne: "query \<noteq> []" "py_strip query \<noteq> []"
    using assms(2) sanitize_blank py_strip_Nil by auto
  have m1: "ddgs_method env ?q n = ([PrimaryCall ?q, AlternateCall ?q], Inl ClientError)"
    by (simp add: ddgs_method_def imp t a run_text_call_def)
  have m2: "legacy_method env ?q n = ([LegacyCall ?q], None)"
    by (simp add: legacy_method_def l)
  have m3: "simplified_method env ?q n =
      ([SimplifiedCall (simplified_query ?q)], Inl ClientError)"
    by (simp add: simplified_method_def imp r run_text_call_def)
  show ?thesis
    using ne assms(2) by (simp add: ddg_search_def Let_def m1 m2 m3)
qed

text \<open>
  C7. For every query, every result count and whatever the search clients do,
  \<open>_ddg_search\<close> returns a list and raises nothing. A query that is empty or only
  whitespace gives the empty list without any client call. When no client call yields
  a result the helper returns the empty list. When both clients are available and every
  call raises, the helper calls, in this order, the primary client, the alternate client
  configuration and the legacy function with the sanitized query, then, only if the
  sanitized query has more than 100 characters, the primary client with the first 10
  words of it, and returns the empty list. In no run is the simplified query sent unless
  the sanitized query has more than 100 characters.
\<close>

theorem ddg_search_never_raises:
  "(\<exists>calls results. ddg_search env query n = Inr (calls, results))
   \<and> (py_strip query = [] \<longrightarrow> ddg_search env query n = Inr ([], []))
   \<and> (total_failure env \<longrightarrow> (\<exists>calls. ddg_search env query n = Inr (calls, [])))
   \<and> (every_call_raises env \<and> sanitize_query query \<noteq> [] \<longrightarrow>
        ddg_search env query n =
          Inr ([PrimaryCall (sanitize_query query), AlternateCall (sanitize_query query),
                LegacyCall (sanitize_query query)]
               @ (if 100 < length (sanitize_query query)
                  then [SimplifiedCall (simplified_query (sanitize_query query))] else []), []))
   \<and> (\<forall>calls results s.
        ddg_search env query n = Inr (calls, results) \<and> SimplifiedCall s \<in> set calls \<longrightarrow>
        100 < length (sanitize_query query) \<and> s = simplified_query (sanitize_query query))
   \<and> simplified_query q = py_join '' '' (take 10 (py_split q))"
proof -
  have a: "\<exists>calls results. ddg_search env query n = Inr (calls, results)"
    by (rule ddg_search_total)
  have b: "py_strip query = [] \<longrightarrow> ddg_search env query n = Inr ([], [])"
    using ddg_search_blank by blast
  have c: "total_failure env \<longrightarrow> (\<exists>calls. ddg_search env query n = Inr (calls, []))"
    using ddg_search_total_failure by blast
  have d: "every_call_raises env \<and> sanitize_query query \<noteq> [] \<longrightarrow>
        ddg_search env query n =
          Inr ([PrimaryCall (sanitize_query query), AlternateCall (sanitize_query query),
                LegacyCall (sanitize_query query)]
               @ (if 100 < length (sanitize_query query)
                  then [SimplifiedCall (simplified_query (sanitize_query query))] else []), [])"
    using ddg_search_every_call_raises by blast
  have e: "\<forall>calls results s.
        ddg_search env query n = Inr (calls, results) \<and> SimplifiedCall s \<in> set calls \<longrightarrow>
        100 < length (sanitize_query query) \<and> s = simplified_query (sanitize_query query)"
    using ddg_search_simplified_only_long by blast
  have f: "simplified_query q = py_join '' '' (take 10 (py_split q))"
    by (simp add: simplified_query_def slice_to_def)
  from a b c d e f show ?thesis by blast
qed

lemma long_query_sanitized:
  "already_sanitized ''what is the difference between asyncio gather and asyncio wait in python three point eleven and when should each be used''"
  by (simp add: already_sanitized_def whitespace_collapsed_def allowed_char_def
        is_space_def is_word_char_def)

lemma long_query_simplified:
  "simplified_query ''what is the difference between asyncio gather and asyncio wait in python three point eleven and when should each be used''
     = ''what is the difference between asyncio gather and asyncio wait''"
  by (simp add: simplified_query_def slice_to_def py_split.simps is_space_def)

theorem ddg_search_never_raises_witness:
  "ddg_search
     \<lparr>ddgs_importable = True,
      ddgs_text = (\<lambda>q n. Yields [] True),
      ddgs_alt_text = (\<lambda>q n. Yields [] True),
      ddg = Some (\<lambda>q n. LegacyRaises),
      ddgs_text_retry = (\<lambda>q n. Yields ([] :: string list) True)\<rparr>
     ''what is the difference between asyncio gather and asyncio wait in python three point eleven and when should each be used'' 5
   = Inr ([PrimaryCall ''what is the difference between asyncio gather and asyncio wait in python three point eleven and when should each be used'',
           AlternateCall ''what is the difference between asyncio gather and asyncio wait in python three point eleven and when should each be used'',
           LegacyCall ''what is the difference between asyncio gather and asyncio wait in python three point eleven and when should each be used'',
           SimplifiedCall ''what is the difference between asyncio gather and asyncio wait''], [])
   \<and> 100 < length (sanitize_query ''what is the difference between asyncio gather and asyncio wait in python three point eleven and when should each be used'')
   \<and> ddg_search
       \<lparr>ddgs_importable = True,
        ddgs_text = (\<lambda>q n. Yields [] True),
        ddgs_alt_text = (\<lambda>q n. Yields [] True),
        ddg = Some (\<lambda>q n. LegacyRaises),
        ddgs_text_retry = (\<lambda>q n. Yields ([] :: string list) True)\<rparr> ''   '' 5 = Inr ([], [])
   \<and> (\<exists>calls. ddg_search
       \<lparr>ddgs_importable = False,
        ddgs_text = (\<lambda>q n. Yields [] False),
        ddgs_alt_text = (\<lambda>q n. Yields [] False),
        ddg = Some (\<lambda>q n. LegacyReturns []),
        ddgs_text_retry = (\<lambda>q n. Yields ([] :: string list) False)\<rparr> ''python'' 5
       = Inr (calls, []))"
proof -
  let ?env = "\<lparr>ddgs_importable = True,
      ddgs_text = (\<lambda>q n. Yields [] True),
      ddgs_alt_text = (\<lambda>q n. Yields [] True),
      ddg = Some (\<lambda>q n. LegacyRaises),
      ddgs_text_retry = (\<lambda>q n. Yields ([] :: string list) True)\<rparr>"
  let ?env2 = "\<lparr>ddgs_importable = False,
        ddgs_text = (\<lambda>q n. Yields [] False),
        ddgs_alt_text = (\<lambda>q n. Yields [] False),
        ddg = Some (\<lambda>q n. LegacyReturns []),
        ddgs_text_retry = (\<lambda>q n. Yields ([] :: string list) False)\<rparr>"
  let ?q = "''what is the difference between asyncio gather and asyncio wait in python three point eleven and when should each be used''"
  note t = ddg_search_never_raises
  have r: "every_call_raises ?env" by (simp add: every_call_raises_def)
  have s: "sanitize_query ?q = ?q" using long_query_sanitized by (rule sanitize_fixed)
  have "every_call_raises ?env \<and> sanitize_query ?q \<noteq> []" using r s by simp
  then have "ddg_search ?env ?q 5 =
          Inr ([PrimaryCall (sanitize_query ?q), AlternateCall (sanitize_query ?q),
                LegacyCall (sanitize_query ?q)]
               @ (if 100 < length (sanitize_query ?q)
                  then [SimplifiedCall (simplified_query (sanitize_query ?q))] else []), [])"
    using t [of ?env ?q 5] by blast
  then have a: "ddg_search ?env ?q 5 =
      Inr ([PrimaryCall ?q, AlternateCall ?q, LegacyCall ?q,
            SimplifiedCall ''what is the difference between asyncio gather and asyncio wait''], [])"
    by (simp add: s long_query_simplified)
  have "SimplifiedCall ''what is the difference between asyncio gather and asyncio wait''
      \<in> set [PrimaryCall ?q, AlternateCall ?q, LegacyCall ?q,
            SimplifiedCall ''what is the difference between asyncio gather and asyncio wait'']"
    by simp
  with a have b: "100 < length (sanitize_query ?q)"
    using t [of ?env ?q 5] by blast
  have "py_strip ''   '' = []" by (simp add: py_strip_def is_space_def)
  then have c: "ddg_search ?env ''   '' 5 = Inr ([], [])"
    using t [of ?env "''   ''" 5] by blast
  have "total_failure ?env2"
    by (simp add: total_failure_def yields_nothing_def returns_nothing_def)
  then have d: "\<exists>calls. ddg_search ?env2 ''python'' 5 = Inr (calls, [])"
    using t [of ?env2 "''python''" 5] by blast
  from a b c d show ?thesis by (intro conjI)
qed

section \<open>Properties of the response cleanup\<close>

lemma starts_with_iff: "starts_with s n \<longleftrightarrow> (\<exists>r. s = n @ r)"
  by (induction s n rule: starts_with.induct) auto

lemma starts_with_append: "starts_with (n @ r) n"
  by (simp add: starts_with_iff)

lemma py_in_iff: "py_in n s \<longleftrightarrow> (\<exists>a b. s = a @ n @ b)"
proof (induction s)
  case Nil
  show ?case by auto
next
  case (Cons c cs)
  show ?case
  proof
    assume "py_in n (c # cs)"
    then consider "starts_with (c # cs) n" | "py_in n cs" by auto
    then show "\<exists>a b. c # cs = a @ n @ b"
    proof cases
      case 1
      then obtain r where "c # cs = n @ r" by (auto simp: starts_with_iff)
      then have "c # cs = [] @ n @ r" by simp
      then show ?thesis by blast
    next
      case 2
      with Cons obtain a b where "cs = a @ n @ b" by blast
      then have "c # cs = (c # a) @ n @ b" by simp
      then show ?thesis by blast
    qed
  next
    assume "\<exists>a b. c # cs = a @ n @ b"
    then obtain a b where ab: "c # cs = a @ n @ b" by blast
    show "py_in n (c # cs)"
    proof (cases a)
      case Nil
      with ab have "starts_with (c # cs) n" by (auto simp: starts_with_iff)
      then show ?thesis by simp
    next
      case (Cons x a')
      with ab have "cs = a' @ n @ b" by simp
      with Cons.IH have "py_in n cs" by blast
      then show ?thesis by simp
    qed
  qed
qed

lemma py_in_mono: "py_in n s \<Longrightarrow> py_in n (a @ s @ b)"
proof -
  assume "py_in n s"
  then obtain x y where "s = x @ n @ y" by (auto simp: py_in_iff)
  then have "a @ s @ b = (a @ x) @ n @ (y @ b)" by simp
  then show ?thesis unfolding py_in_iff by blast
qed

lemma find_after_None: "find_after n s = None \<longleftrightarrow> \<not> py_in n s"
  by (induction s) auto

lemma find_after_Some: "find_after n s = Some r \<Longrightarrow> \<exists>a. s = a @ n @ r"
proof (induction s)
  case Nil
  then show ?case by (auto split: if_splits)
next
  case (Cons c cs)
  show ?case
  proof (cases "starts_with (c # cs) n")
    case True
    then obtain r' where r': "c # cs = n @ r'" by (auto simp: starts_with_iff)
    from True Cons.prems have "r = drop (length n) (c # cs)" by simp
    with r' have "r = r'" by simp
    with r' have "c # cs = [] @ n @ r" by simp
    then show ?thesis by blast
  next
    case False
    with Cons.prems have "find_after n cs = Some r" by simp
    with Cons.IH obtain a where "cs = a @ n @ r" by blast
    then have "c # cs = (c # a) @ n @ r" by simp
    then show ?thesis by blast
  qed
qed

text \<open>A needle whose first character does not occur again in it.\<close>

lemma no_straddling_start:
  assumes uniq: "n \<noteq> []" "hd n \<notin> set (tl n)"
    and absent: "\<not> py_in n u" and ne: "u \<noteq> []"
  shows "\<not> starts_with (u @ n @ post) n"
proof
  assume "starts_with (u @ n @ post) n"
  then obtain r where r: "u @ n @ post = n @ r" by (auto simp: starts_with_iff)
  show False
  proof (cases "length n \<le> length u")
    case True
    have "take (length n) (u @ n @ post) = take (length n) (n @ r)" using r by simp
    then have "take (length n) u = n" using True by simp
    then have "u = n @ drop (length n) u" by (metis append_take_drop_id)
    then have "u = [] @ n @ drop (length n) u" by simp
    then have "py_in n u" unfolding py_in_iff by blast
    with absent show False by simp
  next
    case False
    then have lt: "length u < length n" by simp
    have "(u @ n @ post) ! length u = (n @ r) ! length u" using r by simp
    then have "hd n = n ! length u"
      using lt uniq(1) by (simp add: nth_append hd_conv_nth)
    moreover have "n ! length u \<in> set (tl n)"
    proof -
      obtain x xs where n: "n = x # xs" using uniq(1) by (cases n) auto
      have pos: "0 < length u" using ne by simp
      then have "n ! length u = xs ! (length u - 1)"
        unfolding n by (simp add: nth_Cons')
      moreover have "length u - 1 < length xs" using lt ne unfolding n by (cases u) auto
      ultimately show ?thesis unfolding n by (metis list.sel(3) nth_mem)
    qed
    ultimately show False using uniq(2) by simp
  qed
qed

lemma py_in_Cons: "\<not> py_in n (c # p) \<Longrightarrow> \<not> py_in n p"
  by auto

lemma find_after_first:
  assumes "n \<noteq> []" "hd n \<notin> set (tl n)" "\<not> py_in n pre"
  shows "find_after n (pre @ n @ post) = Some post"
  using assms(3)
proof (induction pre)
  case Nil
  obtain x xs where n: "n = x # xs" using assms(1) by (cases n) auto
  have "starts_with (n @ post) n" by (rule starts_with_append)
  then show ?case unfolding n by simp
next
  case (Cons c p)
  have "\<not> starts_with ((c # p) @ n @ post) n"
    using assms(1,2) Cons.prems by (rule no_straddling_start) simp
  moreover have "\<not> py_in n p" using Cons.prems by (rule py_in_Cons)
  ultimately show ?case using Cons.IH by simp
qed

lemma cut_at_first:
  assumes "n \<noteq> []" "hd n \<notin> set (tl n)" "\<not> py_in n pre"
  shows "cut_at n (pre @ n @ post) = pre"
  using assms(3)
proof (induction pre)
  case Nil
  obtain x xs where n: "n = x # xs" using assms(1) by (cases n) auto
  have "starts_with (n @ post) n" by (rule starts_with_append)
  then show ?case unfolding n by simp
next
  case (Cons c p)
  have "\<not> starts_with ((c # p) @ n @ post) n"
    using assms(1,2) Cons.prems by (rule no_straddling_start) simp
  moreover have "\<not> py_in n p" using Cons.prems by (rule py_in_Cons)
  ultimately show ?case using Cons.IH by simp
qed

lemma cut_at_absent: "\<not> py_in n s \<Longrightarrow> cut_at n s = s"
  by (induction s) auto

lemma remove_all_absent: "\<not> py_in old s \<Longrightarrow> remove_all old s = s"
  by (induction s) auto

lemma remove_think_blocks_absent: "\<not> py_in think_open s \<Longrightarrow> remove_think_blocks s = s"
  by (induction s) auto

lemma think_uniq:
  "think_open \<noteq> []" "hd think_open \<notin> set (tl think_open)"
  "think_close \<noteq> []" "hd think_close \<notin> set (tl think_close)"
  by (simp_all add: think_open_def think_close_def)

lemma think_block_removed:
  assumes "\<not> py_in think_open pre" and "\<not> py_in think_close body"
  shows "remove_think_blocks (pre @ think_open @ body @ think_close @ post)
         = pre @ remove_think_blocks post"
  using assms(1)
proof (induction pre)
  case Nil
  have f: "find_after think_close (body @ think_close @ post) = Some post"
    using think_uniq(3,4) assms(2) by (rule find_after_first)
  obtain c cs where e: "think_open @ body @ think_close @ post = c # cs"
    by (simp add: think_open_def)
  have sw: "starts_with (c # cs) think_open"
    unfolding e [symmetric] by (rule starts_with_append)
  have d: "drop (length think_open) (c # cs) = body @ think_close @ post"
    unfolding e [symmetric] by simp
  show ?case
    unfolding append_Nil e by (simp only: remove_think_blocks.simps sw if_True d f option.case)
next
  case (Cons c p)
  let ?X = "think_open @ body @ think_close @ post"
  have "\<not> starts_with ((c # p) @ think_open @ (body @ think_close @ post)) think_open"
    using think_uniq(1,2) Cons.prems by (rule no_straddling_start) simp
  then have ns: "\<not> starts_with (c # (p @ ?X)) think_open"
    by simp
  have step: "remove_think_blocks (c # (p @ ?X)) = c # remove_think_blocks (p @ ?X)"
    by (simp only: remove_think_blocks.simps ns if_False)
  have "\<not> py_in think_open p" using Cons.prems by (rule py_in_Cons)
  then have "remove_think_blocks (p @ ?X) = p @ remove_think_blocks post"
    by (rule Cons.IH)
  with step show ?case by (simp only: append_Cons)
qed

lemma open_think_cut:
  assumes "\<not> py_in think_open pre"
  shows "cut_at think_open (pre @ think_open @ rest) = pre"
  using think_uniq(1,2) assms by (rule cut_at_first)

lemma match_boxed_head:
  assumes "body \<noteq> []" and "CHR ''}'' \<notin> set body"
  shows "match_boxed (boxed @ ''{'' @ body @ ''}'' @ post) = Some (body, post)"
proof -
  have sw: "starts_with (boxed @ ''{'' @ body @ ''}'' @ post) boxed"
    by (rule starts_with_append)
  have tw: "takeWhile (\<lambda>c. c \<noteq> CHR ''}'') (body @ ''}'' @ post) = body"
    using assms(2) by (induction body) auto
  have dw: "dropWhile (\<lambda>c. c \<noteq> CHR ''}'') (body @ ''}'' @ post) = ''}'' @ post"
    using assms(2) by (induction body) auto
  have sp: "\<not> is_space (CHR ''{'')" by (simp add: is_space_def)
  show ?thesis
    unfolding match_boxed_def using sw assms(1) tw dw sp by (simp add: Let_def)
qed

lemma boxed_uniq: "boxed \<noteq> []" "hd boxed \<notin> set (tl boxed)"
  by (simp_all add: boxed_def)

lemma boxed_unwrapped:
  assumes "\<not> py_in boxed pre" and "body \<noteq> []" and "CHR ''}'' \<notin> set body"
  shows "unbox (pre @ boxed @ ''{'' @ body @ ''}'' @ post) = pre @ body @ unbox post"
  using assms(1)
proof (induction pre)
  case Nil
  have m: "match_boxed (boxed @ ''{'' @ body @ ''}'' @ post) = Some (body, post)"
    using assms(2,3) by (rule match_boxed_head)
  obtain c cs where e: "boxed @ ''{'' @ body @ ''}'' @ post = c # cs"
    by (simp add: boxed_def)
  show ?case using m unfolding append_Nil e by simp
next
  case (Cons c p)
  have "\<not> starts_with ((c # p) @ boxed @ (''{'' @ body @ ''}'' @ post)) boxed"
    using boxed_uniq Cons.prems by (rule no_straddling_start) simp
  then have "match_boxed ((c # p) @ boxed @ ''{'' @ body @ ''}'' @ post) = None"
    by (simp add: match_boxed_def)
  moreover have "\<not> py_in boxed p" using Cons.prems by (rule py_in_Cons)
  ultimately show ?case using Cons.IH by simp
qed

lemma unbox_absent: "\<not> py_in boxed s \<Longrightarrow> unbox s = s"
proof (induction s)
  case Nil
  show ?case by simp
next
  case (Cons c cs)
  then have "\<not> starts_with (c # cs) boxed" by auto
  then have "match_boxed (c # cs) = None" by (simp add: match_boxed_def)
  moreover have "\<not> py_in boxed cs" using Cons.prems by (rule py_in_Cons)
  ultimately show ?case using Cons.IH by simp
qed

lemma after_last_decomp:
  "marker \<noteq> [] \<Longrightarrow> py_in marker s \<Longrightarrow> \<exists>pre. s = pre @ marker @ after_last marker s"
proof (induction marker s rule: after_last.induct)
  case (1 marker s)
  from 1(3) obtain rest where f: "find_after marker s = Some rest"
    using find_after_None [of marker s] by (cases "find_after marker s") auto
  then obtain a where a: "s = a @ marker @ rest" using find_after_Some by blast
  have al: "after_last marker s = after_last marker rest"
    using 1(2) f by (simp add: after_last.simps [of marker s])
  show ?case
  proof (cases "py_in marker rest")
    case True
    then obtain pre where "rest = pre @ marker @ after_last marker rest"
      using 1(1) [OF 1(2) f 1(2)] by blast
    then have "s = (a @ marker @ pre) @ marker @ after_last marker rest"
      using a by simp
    then show ?thesis unfolding al by blast
  next
    case False
    then have "find_after marker rest = None" by (simp add: find_after_None)
    then have "after_last marker rest = rest"
      by (simp add: after_last.simps [of marker rest])
    with a show ?thesis unfolding al by auto
  qed
qed

lemma after_last_absent:
  "marker \<noteq> [] \<Longrightarrow> \<not> py_in marker (after_last marker s)"
proof (induction marker s rule: after_last.induct)
  case (1 marker s)
  show ?case
  proof (cases "find_after marker s")
    case None
    then have "after_last marker s = s" by (simp add: after_last.simps [of marker s])
    with None show ?thesis by (simp add: find_after_None)
  next
    case (Some rest)
    then have "after_last marker s = after_last marker rest"
      using 1(2) by (simp add: after_last.simps [of marker s])
    with 1(1) [OF 1(2) Some 1(2)] show ?thesis by simp
  qed
qed

lemma strip_surround:
  "\<exists>l tr. s = l @ py_strip s @ tr \<and> list_all is_space l \<and> list_all is_space tr"
proof -
  let ?l = "takeWhile is_space s"
  let ?tr = "rev (takeWhile is_space (rev (dropWhile is_space s)))"
  have "s = ?l @ dropWhile is_space s" by simp
  then have "s = ?l @ py_strip s @ ?tr" using strip_split [of s] by simp
  moreover have "list_all is_space ?l" by (auto simp: list_all_iff dest: set_takeWhileD)
  moreover have "list_all is_space ?tr" by (auto simp: list_all_iff dest: set_takeWhileD)
  ultimately show ?thesis by blast
qed

lemma dropWhile_all: "list_all P xs \<Longrightarrow> dropWhile P (xs @ ys) = dropWhile P ys"
  by (induction xs) auto

lemma strip_append_space:
  assumes "list_all is_space tr"
  shows "py_strip (x @ tr) = py_strip x"
proof (cases "list_all is_space x")
  case True
  then have "list_all is_space (x @ tr)" using assms by simp
  then have a: "dropWhile is_space (x @ tr) = []" by (simp add: list_all_iff)
  have b: "dropWhile is_space x = []" using True by (simp add: list_all_iff)
  show ?thesis unfolding py_strip_def a b by simp
next
  case False
  then obtain y where "y \<in> set x" "\<not> is_space y" by (auto simp: list_all_iff)
  then have "dropWhile is_space (x @ tr) = dropWhile is_space x @ tr"
    by (rule dropWhile_append1)
  then have e: "rev (dropWhile is_space (x @ tr)) = rev tr @ rev (dropWhile is_space x)"
    by simp
  have "list_all is_space (rev tr)" using assms by (simp add: list_all_iff)
  then have "dropWhile is_space (rev tr @ rev (dropWhile is_space x))
      = dropWhile is_space (rev (dropWhile is_space x))"
    by (rule dropWhile_all)
  then show ?thesis unfolding py_strip_def e by simp
qed

lemma apply_marker_substring: "\<exists>a b. t = a @ apply_marker t m @ b"
proof (cases "py_in m t")
  case False
  then have "apply_marker t m = t" by (simp add: apply_marker_def)
  moreover have "t = [] @ t @ []" by simp
  ultimately show ?thesis by metis
next
  case True
  then have am: "apply_marker t m = py_strip (after_last m t)"
    by (simp add: apply_marker_def)
  obtain l tr where s: "after_last m t = l @ py_strip (after_last m t) @ tr"
    using strip_surround by blast
  show ?thesis
  proof (cases "m = []")
    case True
    then have "after_last m t = t" by (simp add: after_last.simps [of "[]" t])
    with s have "t = l @ py_strip (after_last m t) @ tr" by simp
    then show ?thesis unfolding am by blast
  next
    case False
    then obtain pre where "t = pre @ m @ after_last m t"
      using after_last_decomp \<open>py_in m t\<close> by blast
    then have "t = pre @ m @ l @ py_strip (after_last m t) @ tr" using s by simp
    then have "t = (pre @ m @ l) @ py_strip (after_last m t) @ tr" by simp
    then show ?thesis unfolding am by blast
  qed
qed

lemma apply_marker_keeps_absent:
  assumes "\<not> py_in x t"
  shows "\<not> py_in x (apply_marker t m)"
proof
  assume a: "py_in x (apply_marker t m)"
  obtain p q where "t = p @ apply_marker t m @ q" using apply_marker_substring by blast
  with a have "py_in x t" using py_in_mono by metis
  with assms show False by simp
qed

lemma apply_marker_removes:
  "m \<noteq> [] \<Longrightarrow> \<not> py_in m (apply_marker t m)"
proof (cases "py_in m t")
  case True
  assume ne: "m \<noteq> []"
  have n: "\<not> py_in m (after_last m t)" using ne by (rule after_last_absent)
  obtain l tr where s: "after_last m t = l @ py_strip (after_last m t) @ tr"
    using strip_surround by blast
  have "\<not> py_in m (py_strip (after_last m t))"
  proof
    assume "py_in m (py_strip (after_last m t))"
    then have "py_in m (l @ py_strip (after_last m t) @ tr)" by (rule py_in_mono)
    with s n show False by simp
  qed
  with True show ?thesis by (simp add: apply_marker_def)
next
  case False
  then show ?thesis by (simp add: apply_marker_def)
qed

lemma foldl_markers_keep_absent:
  "\<not> py_in x t \<Longrightarrow> \<not> py_in x (foldl apply_marker t ms)"
  by (induction ms arbitrary: t) (auto dest: apply_marker_keeps_absent)

lemma foldl_markers_none:
  "list_all (\<lambda>m. m \<noteq> []) ms \<Longrightarrow> list_all (\<lambda>m. \<not> py_in m (foldl apply_marker t ms)) ms"
proof (induction ms arbitrary: t)
  case Nil
  show ?case by simp
next
  case (Cons m ms)
  have "\<not> py_in m (apply_marker t m)" using Cons.prems by (simp add: apply_marker_removes)
  then have "\<not> py_in m (foldl apply_marker (apply_marker t m) ms)"
    by (rule foldl_markers_keep_absent)
  moreover have "list_all (\<lambda>m'. \<not> py_in m' (foldl apply_marker (apply_marker t m) ms)) ms"
    using Cons by simp
  ultimately show ?case by simp
qed

lemma foldl_markers_absent:
  "list_all (\<lambda>m. \<not> py_in m t) ms \<Longrightarrow> foldl apply_marker t ms = t"
  by (induction ms arbitrary: t) (auto simp: apply_marker_def)

lemma foldl_markers_present:
  assumes "list_all (\<lambda>m. m \<noteq> []) ms" and "list_ex (\<lambda>m. py_in m t) ms"
  shows "\<exists>m pre suf. m \<in> set ms \<and> t = pre @ m @ suf
           \<and> foldl apply_marker t ms = py_strip suf"
  using assms
proof (induction ms arbitrary: t)
  case Nil
  then show ?case by simp
next
  case (Cons m ms)
  have ne: "list_all (\<lambda>m. m \<noteq> []) ms" and mne: "m \<noteq> []" using Cons.prems(1) by simp_all
  show ?case
  proof (cases "py_in m t")
    case False
    then have t1: "apply_marker t m = t" by (simp add: apply_marker_def)
    from False Cons.prems(2) have "list_ex (\<lambda>m. py_in m t) ms" by simp
    then obtain m' pre suf where a: "m' \<in> set ms" and b: "t = pre @ m' @ suf"
      and c: "foldl apply_marker t ms = py_strip suf"
      using Cons.IH [OF ne] by blast
    have a': "m' \<in> set (m # ms)" using a by simp
    have c': "foldl apply_marker t (m # ms) = py_strip suf" using c t1 by simp
    from a' b c' show ?thesis by blast
  next
    case True
    let ?r = "after_last m t"
    let ?t1 = "py_strip ?r"
    have t1: "apply_marker t m = ?t1" using True by (simp add: apply_marker_def)
    obtain pre where p: "t = pre @ m @ ?r" using after_last_decomp [OF mne True] by blast
    show ?thesis
    proof (cases "list_ex (\<lambda>m. py_in m ?t1) ms")
      case False
      then have "list_all (\<lambda>m. \<not> py_in m ?t1) ms"
        by (simp add: list_all_iff list_ex_iff)
      then have "foldl apply_marker ?t1 ms = ?t1" by (rule foldl_markers_absent)
      then have c: "foldl apply_marker t (m # ms) = py_strip ?r" using t1 by simp
      have a: "m \<in> set (m # ms)" by simp
      from a p c show ?thesis by blast
    next
      case True
      then obtain m' pre' suf' where m': "m' \<in> set ms" and d: "?t1 = pre' @ m' @ suf'"
        and r: "foldl apply_marker ?t1 ms = py_strip suf'"
        using Cons.IH [OF ne] by blast
      obtain l tr where s: "?r = l @ ?t1 @ tr" and tr: "list_all is_space tr"
        using strip_surround by blast
      have "t = pre @ m @ l @ (pre' @ m' @ suf') @ tr"
        using p s d by metis
      then have b: "t = (pre @ m @ l @ pre') @ m' @ (suf' @ tr)" by simp
      have c: "foldl apply_marker t (m # ms) = py_strip (suf' @ tr)"
        using t1 r tr by (simp add: strip_append_space)
      have a: "m' \<in> set (m # ms)" using m' by simp
      from a b c show ?thesis by blast
    qed
  qed
qed

lemma py_in_suffix: "\<not> py_in n (a @ s) \<Longrightarrow> \<not> py_in n s"
  using py_in_mono [of n s a "[]"] by auto

lemma py_in_prefix: "\<not> py_in n (s @ b) \<Longrightarrow> \<not> py_in n s"
  using py_in_mono [of n s "[]" b] by auto

lemma remove_think_blocks_unclosed:
  "\<not> py_in think_close s \<Longrightarrow> remove_think_blocks s = s"
proof (induction s)
  case Nil
  show ?case by simp
next
  case (Cons c cs)
  have "c # cs = take (length think_open) (c # cs) @ drop (length think_open) (c # cs)"
    by simp
  then have "\<not> py_in think_close (drop (length think_open) (c # cs))"
    using Cons.prems py_in_suffix by metis
  then have f: "find_after think_close (drop (length think_open) (c # cs)) = None"
    by (simp add: find_after_None)
  have "\<not> py_in think_close cs" using Cons.prems by (rule py_in_Cons)
  then have "remove_think_blocks cs = cs" by (rule Cons.IH)
  then show ?case by (simp only: remove_think_blocks.simps f option.case if_cancel)
qed

lemma strip_think_block:
  assumes "\<not> py_in think_open (pre @ post)" and "\<not> py_in think_close (pre @ post)"
    and "\<not> py_in think_close body"
  shows "strip_think (pre @ think_open @ body @ think_close @ post) = pre @ post"
proof -
  have a: "\<not> py_in think_open pre" using assms(1) by (rule py_in_prefix)
  have b: "\<not> py_in think_open post" using assms(1) by (rule py_in_suffix)
  have "remove_think_blocks (pre @ think_open @ body @ think_close @ post)
      = pre @ remove_think_blocks post"
    using a assms(3) by (rule think_block_removed)
  then have 1: "remove_think_blocks (pre @ think_open @ body @ think_close @ post) = pre @ post"
    using b by (simp add: remove_think_blocks_absent)
  have 2: "cut_at think_open (pre @ post) = pre @ post"
    using assms(1) by (rule cut_at_absent)
  have 3: "remove_all think_open (pre @ post) = pre @ post"
    using assms(1) by (rule remove_all_absent)
  have 4: "remove_all think_close (pre @ post) = pre @ post"
    using assms(2) by (rule remove_all_absent)
  show ?thesis unfolding strip_think_def Let_def 1 2 3 4 ..
qed

lemma strip_think_unterminated:
  assumes "\<not> py_in think_open pre" and "\<not> py_in think_close (pre @ think_open @ rest)"
  shows "strip_think (pre @ think_open @ rest) = pre"
proof -
  have 1: "remove_think_blocks (pre @ think_open @ rest) = pre @ think_open @ rest"
    using assms(2) by (rule remove_think_blocks_unclosed)
  have 2: "cut_at think_open (pre @ think_open @ rest) = pre"
    using assms(1) by (rule open_think_cut)
  have 3: "remove_all think_open pre = pre" using assms(1) by (rule remove_all_absent)
  have "\<not> py_in think_close pre" using assms(2) by (rule py_in_prefix)
  then have 4: "remove_all think_close pre = pre" by (rule remove_all_absent)
  show ?thesis unfolding strip_think_def Let_def 1 2 3 4 ..
qed

lemma markers_nonempty: "list_all (\<lambda>m. m \<noteq> []) final_answer_markers"
  by (simp add: final_answer_markers_def)

lemma cleanup_example:
  "cleanup_response (''<think>scratch</think>FINAL ANSWER: '' @ boxed @ ''{42}'') = ''42''"
  by (simp add: cleanup_response_def strip_think_def keep_final_answer_def
     final_answer_markers_def apply_marker_def after_last.simps boxed_def match_boxed_def
     py_strip_def is_space_def think_open_def think_close_def)

text \<open>
  C4 (amended). The response cleanup: a \<open><think>\<close> block (an opening tag and the first closing tag
  behind it) is removed, and the scan goes on behind it, so that every block goes; a
  text with one block and no other tag becomes the text around the block; an opening tag
  that no closing tag follows is removed with everything behind it. When one of the
  markers "FINAL ANSWER:", "Final Answer:", "### Answer", "Answer:" occurs, what is kept
  is the text, stripped, behind an occurrence of a marker, and no marker occurs in it;
  when none occurs the text is unchanged. The markers are applied in this order, each
  one that occurs cutting the text behind its last occurrence. \<open>\boxed{...}\<close> is replaced by what stands between
  the braces. Applied to \<open><think>scratch</think>FINAL ANSWER: \boxed{42}\<close> the cleanup
  gives exactly \<open>42\<close>.
\<close>

theorem cleanup_response_steps:
  "cleanup_response (''<think>scratch</think>FINAL ANSWER: '' @ boxed @ ''{42}'') = ''42''
   \<and> boxed = CHR 0x5C # ''boxed''
   \<and> (\<not> py_in think_open pre \<and> \<not> py_in think_close body \<longrightarrow>
        remove_think_blocks (pre @ think_open @ body @ think_close @ post)
          = pre @ remove_think_blocks post)
   \<and> (\<not> py_in think_open (pre @ post) \<and> \<not> py_in think_close (pre @ post)
        \<and> \<not> py_in think_close body \<longrightarrow>
        strip_think (pre @ think_open @ body @ think_close @ post) = pre @ post)
   \<and> (\<not> py_in think_open pre \<and> \<not> py_in think_close (pre @ think_open @ rest) \<longrightarrow>
        strip_think (pre @ think_open @ rest) = pre)
   \<and> (list_ex (\<lambda>m. py_in m t) final_answer_markers \<longrightarrow>
        (\<exists>m before behind. m \<in> set final_answer_markers \<and> t = before @ m @ behind
           \<and> keep_final_answer t = py_strip behind))
   \<and> (list_all (\<lambda>m. \<not> py_in m t) final_answer_markers \<longrightarrow> keep_final_answer t = t)
   \<and> list_all (\<lambda>m. \<not> py_in m (keep_final_answer t)) final_answer_markers
   \<and> (marker \<noteq> [] \<and> py_in marker t \<longrightarrow>
        apply_marker t marker = py_strip (after_last marker t)
        \<and> (\<exists>before. t = before @ marker @ after_last marker t)
        \<and> \<not> py_in marker (after_last marker t))
   \<and> (\<not> py_in boxed pre \<and> inner \<noteq> [] \<and> CHR ''}'' \<notin> set inner \<longrightarrow>
        unbox (pre @ boxed @ ''{'' @ inner @ ''}'' @ post) = pre @ inner @ unbox post)"
proof -
  have 1: "cleanup_response (''<think>scratch</think>FINAL ANSWER: '' @ boxed @ ''{42}'')
      = ''42''"
    by (rule cleanup_example)
  have 2: "boxed = CHR 0x5C # ''boxed''" by (rule boxed_def)
  have 3: "\<not> py_in think_open pre \<and> \<not> py_in think_close body \<longrightarrow>
        remove_think_blocks (pre @ think_open @ body @ think_close @ post)
          = pre @ remove_think_blocks post"
    using think_block_removed by blast
  have 4: "\<not> py_in think_open (pre @ post) \<and> \<not> py_in think_close (pre @ post)
        \<and> \<not> py_in think_close body \<longrightarrow>
        strip_think (pre @ think_open @ body @ think_close @ post) = pre @ post"
    using strip_think_block by blast
  have 5: "\<not> py_in think_open pre \<and> \<not> py_in think_close (pre @ think_open @ rest) \<longrightarrow>
        strip_think (pre @ think_open @ rest) = pre"
    using strip_think_unterminated by blast
  have 6: "list_ex (\<lambda>m. py_in m t) final_answer_markers \<longrightarrow>
        (\<exists>m before behind. m \<in> set final_answer_markers \<and> t = before @ m @ behind
           \<and> keep_final_answer t = py_strip behind)"
    unfolding keep_final_answer_def
    using foldl_markers_present [OF markers_nonempty] by blast
  have 7: "list_all (\<lambda>m. \<not> py_in m t) final_answer_markers \<longrightarrow> keep_final_answer t = t"
    unfolding keep_final_answer_def using foldl_markers_absent by blast
  have 8: "list_all (\<lambda>m. \<not> py_in m (keep_final_answer t)) final_answer_markers"
    unfolding keep_final_answer_def using markers_nonempty by (rule foldl_markers_none)
  have 10: "marker \<noteq> [] \<and> py_in marker t \<longrightarrow>
        apply_marker t marker = py_strip (after_last marker t)
        \<and> (\<exists>before. t = before @ marker @ after_last marker t)
        \<and> \<not> py_in marker (after_last marker t)"
  proof
    assume h: "marker \<noteq> [] \<and> py_in marker t"
    then have a: "apply_marker t marker = py_strip (after_last marker t)"
      by (simp add: apply_marker_def)
    have b: "\<exists>before. t = before @ marker @ after_last marker t"
      using h after_last_decomp by blast
    have c: "\<not> py_in marker (after_last marker t)"
      using h after_last_absent by blast
    from a b c show "apply_marker t marker = py_strip (after_last marker t)
        \<and> (\<exists>before. t = before @ marker @ after_last marker t)
        \<and> \<not> py_in marker (after_last marker t)" by (intro conjI)
  qed
  have 9: "\<not> py_in boxed pre \<and> inner \<noteq> [] \<and> CHR ''}'' \<notin> set inner \<longrightarrow>
        unbox (pre @ boxed @ ''{'' @ inner @ ''}'' @ post) = pre @ inner @ unbox post"
    using boxed_unwrapped by blast
  from 1 2 3 4 5 6 7 8 10 9 show ?thesis by (intro conjI)
qed

theorem cleanup_response_steps_witness:
  "strip_think (''a'' @ think_open @ ''b'' @ think_close @ ''c'') = ''ac''
   \<and> remove_think_blocks (''a'' @ think_open @ ''b'' @ think_close @ ''c'') = ''ac''
   \<and> strip_think (''a'' @ think_open @ ''b'') = ''a''
   \<and> (\<exists>m before behind. m \<in> set final_answer_markers
         \<and> ''so Answer: 7'' = before @ m @ behind
         \<and> keep_final_answer ''so Answer: 7'' = py_strip behind)
   \<and> apply_marker ''so Answer: 7'' ''Answer:'' = py_strip (after_last ''Answer:'' ''so Answer: 7'')
   \<and> keep_final_answer ''plain'' = ''plain''
   \<and> unbox (''x='' @ boxed @ ''{7}'' @ ''.'') = ''x=7.''"
proof -
  note t = cleanup_response_steps
  have a: "strip_think (''a'' @ think_open @ ''b'' @ think_close @ ''c'') = ''a'' @ ''c''"
    using t [of "''a''" "''b''" "''c''"]
    by (simp add: think_open_def think_close_def)
  have "\<not> py_in think_open ''a'' \<and> \<not> py_in think_close ''b''"
    by (simp add: think_open_def think_close_def)
  then have "remove_think_blocks (''a'' @ think_open @ ''b'' @ think_close @ ''c'')
      = ''a'' @ remove_think_blocks ''c''"
    using t [of "''a''" "''b''" "''c''"] by blast
  then have a': "remove_think_blocks (''a'' @ think_open @ ''b'' @ think_close @ ''c'') = ''ac''"
    by (simp add: think_open_def)
  have b: "strip_think (''a'' @ think_open @ ''b'') = ''a''"
    using t [of "''a''" _ _ "''b''"]
    by (simp add: think_open_def think_close_def)
  have "list_ex (\<lambda>m. py_in m ''so Answer: 7'') final_answer_markers"
    by (simp add: final_answer_markers_def)
  then have c: "\<exists>m before behind. m \<in> set final_answer_markers
         \<and> ''so Answer: 7'' = before @ m @ behind
         \<and> keep_final_answer ''so Answer: 7'' = py_strip behind"
    using t [of _ _ _ _ "''so Answer: 7''"] by blast
  have "''Answer:'' \<noteq> [] \<and> py_in ''Answer:'' ''so Answer: 7''" by simp
  then have c': "apply_marker ''so Answer: 7'' ''Answer:''
      = py_strip (after_last ''Answer:'' ''so Answer: 7'')"
    using t [of _ _ _ _ "''so Answer: 7''" "''Answer:''"] by blast
  have "list_all (\<lambda>m. \<not> py_in m ''plain'') final_answer_markers"
    by (simp add: final_answer_markers_def)
  then have d: "keep_final_answer ''plain'' = ''plain''"
    using t [of _ _ _ _ "''plain''"] by blast
  have "\<not> py_in boxed ''x='' \<and> ''7'' \<noteq> [] \<and> CHR ''}'' \<notin> set ''7''"
    by (simp add: boxed_def)
  then have "unbox (''x='' @ boxed @ ''{'' @ ''7'' @ ''}'' @ ''.'') = ''x='' @ ''7'' @ unbox ''.''"
    using t [of "''x=''" _ "''.''" _ _ _ "''7''"] by blast
  then have e: "unbox (''x='' @ boxed @ ''{7}'' @ ''.'') = ''x=7.''"
    by (simp add: match_boxed_def boxed_def)
  from a a' b c c' d e show ?thesis by simp
qed

text \<open>
  C4 as stated fails where occurrences of two markers overlap: in \<open>### Answer: 42\<close> the
  last occurrence of a marker is that of "Answer:", and the text after it is \<open>42\<close>; the
  code first cuts behind "### Answer" and keeps the colon. It also fails where the boxed
  contents hold a closing brace: \<open>\boxed{\frac{1}{2}}\<close> becomes \<open>\frac{1{2}}\<close>, not its
  contents \<open>\frac{1}{2}\<close>.
\<close>

theorem cleanup_overlapping_markers_counterexample:
  "cleanup_response ''### Answer: 42'' = '': 42''
   \<and> cleanup_as_specified ''### Answer: 42'' = ''42''
   \<and> cleanup_response ''### Answer: 42'' \<noteq> cleanup_as_specified ''### Answer: 42''
   \<and> cleanup_response (boxed @ ''{'' @ CHR 0x5C # ''frac{1}{2}}'') = CHR 0x5C # ''frac{1{2}}''
   \<and> cleanup_response (boxed @ ''{'' @ CHR 0x5C # ''frac{1}{2}}'') \<noteq> CHR 0x5C # ''frac{1}{2}''"
  by (simp add: cleanup_response_def cleanup_as_specified_def keep_after_last_marker_def
     strip_think_def keep_final_answer_def
     final_answer_markers_def apply_marker_def after_last.simps boxed_def match_boxed_def
     py_strip_def is_space_def think_open_def think_close_def)

lemma cleanup_as_specified_example:
  "cleanup_as_specified (''<think>scratch</think>FINAL ANSWER: '' @ boxed @ ''{42}'') = ''42''"
  by (simp add: cleanup_response_def cleanup_as_specified_def keep_after_last_marker_def
     strip_think_def keep_final_answer_def
     final_answer_markers_def apply_marker_def after_last.simps boxed_def match_boxed_def
     py_strip_def is_space_def think_open_def think_close_def)

end
